theory Spec2Isabelle
  imports Main "HOL-Library.Sublist"
begin

section \<open>JavaScript strings\<close>

text \<open>
  Strings are \<open>char list\<close>. A character is a code unit from U+0000 to U+00FF, so the
  strings of the model are the JavaScript strings over Latin-1. On these \<open>toLowerCase\<close>
  maps \<open>A-Z\<close> and the letters U+00C0 to U+00DE (the multiplication sign U+00D7 is not one)
  to the character 32 places further on and leaves every other character alone, \<open>trim\<close>
  strips white space and line terminators (tab, line feed, vertical tab, form feed,
  carriage return, space, no-break space U+00A0) from both ends, and \<open>length\<close> counts
  code units.
\<close>

definition lower_char :: "char \<Rightarrow> char" where
  "lower_char c =
     (let n = (of_char c :: nat) in
      if (65 \<le> n \<and> n \<le> 90) \<or> (192 \<le> n \<and> n \<le> 222 \<and> n \<noteq> 215) then char_of (n + 32) else c)"

definition toLowerCase :: "string \<Rightarrow> string" where
  "toLowerCase s = map lower_char s"

definition is_ws :: "char \<Rightarrow> bool" where
  "is_ws c = (c = CHR 0x09 \<or> c = CHR 0x0A \<or> c = CHR 0x0B \<or> c = CHR 0x0C \<or> c = CHR 0x0D
            \<or> c = CHR 0x20 \<or> c = CHR 0xA0)"

definition trim :: "string \<Rightarrow> string" where
  "trim s = rev (dropWhile is_ws (rev (dropWhile is_ws s)))"

definition startsWith :: "string \<Rightarrow> string \<Rightarrow> bool" where
  "startsWith s p = prefix p s"

text \<open>\<open>s.includes(k)\<close>: \<open>k\<close> occurs in \<open>s\<close> as a contiguous substring.\<close>

fun str_includes :: "string \<Rightarrow> string \<Rightarrow> bool" where
  "str_includes [] k = (k = [])"
| "str_includes (c # s) k = (prefix k (c # s) \<or> str_includes s k)"

text \<open>\<open>keywords.some(keyword => combined.includes(keyword))\<close>\<close>

definition some_included :: "string list \<Rightarrow> string \<Rightarrow> bool" where
  "some_included keywords combined = list_ex (\<lambda>keyword. str_includes combined keyword) keywords"

section \<open>Results of calls\<close>

text \<open>
  A thrown JavaScript error is a value carrying its \<open>message\<close>. A synchronous call, and an
  asynchronous one whose promise always settles, has a result of type \<open>exn + 'a\<close>
  (\<open>Inl\<close> the thrown error or rejection). A promise that may stay pending forever has a
  result of type \<open>'a outcome\<close>.
\<close>

datatype exn = JsError (message: string)

datatype 'a outcome = Returns 'a | Throws exn | Pending

section \<open>The document tree\<close>

text \<open>
  An element has a tag name (lower case for an element of a parsed HTML document),
  attributes and children. A document is the list of the children of its document node,
  with its mode: an HTML document parsed from a text without a doctype is in quirks mode
  (\<open>quirks\<close>), an XML document never is.
\<close>

datatype node = Text string | Elem (tag: string) (attrs: "(string \<times> string) list") (children: "node list")

record dom =
  quirks :: bool
  roots :: "node list"

fun textContent :: "node \<Rightarrow> string" where
  "textContent (Text s) = s"
| "textContent (Elem t as cs) = concat (map textContent cs)"

definition getAttribute :: "node \<Rightarrow> string \<Rightarrow> string option" where
  "getAttribute e name = (case e of Text s \<Rightarrow> None | Elem t as cs \<Rightarrow> map_of as name)"

text \<open>
  The tokens of a \<open>class\<close> attribute, separated by ASCII white space (tab, line feed, form
  feed, carriage return, space).
\<close>

definition is_ascii_ws :: "char \<Rightarrow> bool" where
  "is_ascii_ws c = (c = CHR 0x09 \<or> c = CHR 0x0A \<or> c = CHR 0x0C \<or> c = CHR 0x0D \<or> c = CHR 0x20)"

fun split_ws :: "string \<Rightarrow> string \<Rightarrow> string list" where
  "split_ws acc [] = (if acc = [] then [] else [acc])"
| "split_ws acc (c # cs) =
     (if is_ascii_ws c then (if acc = [] then split_ws [] cs else acc # split_ws [] cs)
      else split_ws (acc @ [c]) cs)"

definition classList :: "node \<Rightarrow> string list" where
  "classList e = (case getAttribute e ''class'' of None \<Rightarrow> [] | Some v \<Rightarrow> split_ws [] v)"

text \<open>
  The selectors the source uses: a tag name (\<open>p\<close>), a class (\<open>.ads\<close>), a tag with an
  attribute present (\<open>a[href]\<close>), an attribute containing a substring
  (\<open>[class*="address"]\<close>) and a tag below an ancestor tag (\<open>url loc\<close>). A selector list
  (\<open>ul, ol\<close>) matches when one of its selectors does.
\<close>

datatype selector =
    Tag string
  | Class string
  | TagWithAttr string string
  | AttrContains string string
  | Below string string

text \<open>
  An element is matched together with the tags of its ancestors, nearest first. In a
  document in quirks mode a class selector matches a class name without regard to the case
  of the ASCII letters; otherwise the names must be equal.
\<close>

definition ascii_lower :: "char \<Rightarrow> char" where
  "ascii_lower c = (let n = (of_char c :: nat) in if 65 \<le> n \<and> n \<le> 90 then char_of (n + 32) else c)"

fun matches :: "bool \<Rightarrow> selector \<Rightarrow> string list \<times> node \<Rightarrow> bool" where
  "matches q (Tag t) (anc, e) = (tag e = t)"
| "matches q (Class c) (anc, e) =
     (if q then map ascii_lower c \<in> set (map (map ascii_lower) (classList e))
      else c \<in> set (classList e))"
| "matches q (TagWithAttr t a) (anc, e) = (tag e = t \<and> getAttribute e a \<noteq> None)"
| "matches q (AttrContains a v) (anc, e) =
     (case getAttribute e a of None \<Rightarrow> False | Some w \<Rightarrow> str_includes w v)"
| "matches q (Below u t) (anc, e) = (tag e = t \<and> u \<in> set anc)"

definition matches_any :: "bool \<Rightarrow> selector list \<Rightarrow> string list \<times> node \<Rightarrow> bool" where
  "matches_any q sels x = list_ex (\<lambda>s. matches q s x) sels"

text \<open>The elements below a node in document order, the node itself first.\<close>

fun elements :: "string list \<Rightarrow> node \<Rightarrow> (string list \<times> node) list" where
  "elements anc (Text s) = []"
| "elements anc (Elem t as cs) = (anc, Elem t as cs) # concat (map (elements (t # anc)) cs)"

definition doc_elements :: "dom \<Rightarrow> (string list \<times> node) list" where
  "doc_elements doc = concat (map (elements []) (roots doc))"

text \<open>\<open>doc.querySelectorAll(sels)\<close>, with the ancestors' tags kept.\<close>

definition querySelectorAll' :: "dom \<Rightarrow> selector list \<Rightarrow> (string list \<times> node) list" where
  "querySelectorAll' doc sels = filter (matches_any (quirks doc) sels) (doc_elements doc)"

definition querySelectorAll :: "dom \<Rightarrow> selector list \<Rightarrow> node list" where
  "querySelectorAll doc sels = map snd (querySelectorAll' doc sels)"

text \<open>
  \<open>el.querySelectorAll(sels)\<close> on an element of the document \<open>doc\<close>: its descendants,
  itself excluded.
\<close>

definition descendants :: "dom \<Rightarrow> node \<Rightarrow> selector list \<Rightarrow> node list" where
  "descendants doc e sels = querySelectorAll (doc\<lparr>roots := children e\<rparr>) sels"

text \<open>
  \<open>doc.querySelectorAll(sel).forEach(el => el.remove())\<close>: every matching element
  leaves the tree with all that is below it.
\<close>

fun prune :: "bool \<Rightarrow> selector \<Rightarrow> string list \<Rightarrow> node \<Rightarrow> node list" where
  "prune q sel anc (Text s) = [Text s]"
| "prune q sel anc (Elem t as cs) =
     (if matches q sel (anc, Elem t as cs) then []
      else [Elem t as (concat (map (prune q sel (t # anc)) cs))])"

definition remove_all :: "selector \<Rightarrow> dom \<Rightarrow> dom" where
  "remove_all sel doc = doc\<lparr>roots := concat (map (prune (quirks doc) sel []) (roots doc))\<rparr>"

text \<open>
  \<open>doc.body\<close>: the first \<open>body\<close> or \<open>frameset\<close> child of the document element when that
  is an \<open>html\<close> element, and \<open>null\<close> otherwise.
\<close>

fun is_element :: "node \<Rightarrow> bool" where
  "is_element (Text s) = False"
| "is_element (Elem t as cs) = True"

definition doc_body :: "dom \<Rightarrow> node option" where
  "doc_body doc =
     (case filter is_element (roots doc) of
        [] \<Rightarrow> None
      | root # rest \<Rightarrow>
          if tag root = ''html''
          then find (\<lambda>c. is_element c \<and> (tag c = ''body'' \<or> tag c = ''frameset'')) (children root)
          else None)"

section \<open>Data of the analyzer\<close>

text \<open>
  A value whose structure the source does not show (the result of a method that is not in
  the source) is kept as its JSON text.
\<close>

type_synonym jsval = string

text \<open>
  A link object. The navigation scan writes \<open>url\<close>, \<open>text\<close>, \<open>type\<close> and \<open>location\<close>; the
  sitemap scan writes \<open>url\<close>, \<open>source\<close> and \<open>type\<close>; a field an object literal does not
  write is \<open>undefined\<close> (\<open>None\<close>). The fields \<open>text\<close> and \<open>type\<close> are \<open>linkText\<close> and
  \<open>linkType\<close> here.
\<close>

record link_info =
  url :: string
  linkText :: "string option"
  linkType :: "string option"
  source :: "string option"
  location :: "jsval option"

text \<open>
  JavaScript compares objects by identity. Every evaluation of an object literal makes a
  new object, so an object is identified by the place that made it: the position of the
  anchor in the navigation scan, the sitemap file and the position of the \<open>loc\<close> element
  in the sitemap scan, and an identity given by the method for the two methods that are
  not in the source.
\<close>

datatype objid = NavObj nat | SitemapObj nat nat | RobotsObj nat | CommonObj nat

type_synonym link_obj = "objid \<times> link_info"

record heading =
  level :: nat
  headingText :: string
  headingId :: "string option"

record list_info =
  listType :: string
  items :: "string list"

record contact_info =
  emails :: "string list"
  phones :: "string list"
  addresses :: "string list"

record content =
  title :: string
  headings :: "heading list"
  paragraphs :: "string list"
  lists :: "list_info list"
  tables :: jsval
  forms :: jsval
  contactInfo :: contact_info
  metadata :: jsval

record page_metadata =
  crawledAt :: string
  metaLinkText :: "string option"
  metaSource :: string

record crawled_page =
  pageUrl :: string
  pageType :: "string option"
  pageContent :: content
  pageMetadata :: page_metadata

record processed_page =
  procUrl :: string
  procType :: "string option"
  procTitle :: string
  sections :: jsval
  policies :: jsval
  procedures :: jsval
  procContactInfo :: contact_info
  lastUpdated :: string

text \<open>
  A plain object used as a dictionary is the association list of its own properties in
  the order of \<open>Object.entries\<close> and \<open>Object.keys\<close>: the keys that are array indices (the
  decimal numerals of the numbers below \<open>2^32 - 1\<close>) in ascending order, then the other keys
  in the order in which they were created. Writing an existing key keeps its place.
\<close>

definition is_digit :: "char \<Rightarrow> bool" where
  "is_digit c = (48 \<le> (of_char c :: nat) \<and> (of_char c :: nat) \<le> 57)"

definition array_index :: "string \<Rightarrow> int option" where
  "array_index k =
     (if k = [] \<or> \<not> list_all is_digit k \<or> (hd k = CHR ''0'' \<and> tl k \<noteq> []) then None
      else let n = fold (\<lambda>c n. 10 * n + (of_char c - 48)) k (0 :: int)
           in if n < 4294967295 then Some n else None)"

definition key_before :: "string \<Rightarrow> string \<Rightarrow> bool" where
  "key_before k k' =
     (case array_index k of
        None \<Rightarrow> False
      | Some n \<Rightarrow> (case array_index k' of None \<Rightarrow> True | Some n' \<Rightarrow> n < n'))"

fun obj_insert :: "(string \<times> 'v) list \<Rightarrow> string \<Rightarrow> 'v \<Rightarrow> (string \<times> 'v) list" where
  "obj_insert [] k v = [(k, v)]"
| "obj_insert ((k', v') # kvs) k v =
     (if key_before k k' then (k, v) # (k', v') # kvs else (k', v') # obj_insert kvs k v)"

definition obj_set :: "(string \<times> 'v) list \<Rightarrow> string \<Rightarrow> 'v \<Rightarrow> (string \<times> 'v) list" where
  "obj_set kvs k v =
     (if k \<in> fst ` set kvs then map (\<lambda>kv. if fst kv = k then (k, v) else kv) kvs
      else obj_insert kvs k v)"

text \<open>
  The string-keyed properties every plain object inherits from \<open>Object.prototype\<close>. All of
  them are functions but \<open>__proto__\<close>, an accessor: reading it gives the prototype, and the
  assignment \<open>obj['__proto__'] = v\<close> of an object \<open>v\<close> changes the prototype of \<open>obj\<close> and
  creates no property.
\<close>

definition object_prototype_keys :: "string list" where
  "object_prototype_keys = [
     ''constructor'', ''__defineGetter__'', ''__defineSetter__'', ''hasOwnProperty'',
     ''__lookupGetter__'', ''__lookupSetter__'', ''isPrototypeOf'', ''propertyIsEnumerable'',
     ''toString'', ''valueOf'', ''__proto__'', ''toLocaleString'']"

text \<open>\<open>obj[k] = v\<close> for an object \<open>v\<close>.\<close>

definition obj_assign :: "(string \<times> 'v) list \<Rightarrow> string \<Rightarrow> 'v \<Rightarrow> (string \<times> 'v) list" where
  "obj_assign kvs k v = (if k = ''__proto__'' then kvs else obj_set kvs k v)"

type_synonym actionable = "(string \<times> (string \<times> jsval list) list) list"

record crawl_stats =
  pagesAnalyzed :: nat
  statContentTypes :: "string list"
  timestamp :: string

record analysis =
  currentPage :: jsval
  resultSections :: "(string \<times> processed_page list) list"
  actionableInfo :: actionable
  crawlStats :: crawl_stats

text \<open>What \<open>performDeepAnalysis\<close> resolves to: the analysis, or \<open>{error: message}\<close>.\<close>

datatype analysis_result = Analysis analysis | Failure string

text \<open>The fields the constructor sets. \<open>crawledUrls\<close> is a \<open>Set\<close> of strings, kept in insertion order.\<close>

record analyzer =
  supportSections :: "(string \<times> jsval) list"
  crawledUrls :: "string list"
  maxDepth :: nat
  currentDepth :: nat
  supportPatterns :: "string list"
  contentTypes :: "(string \<times> string list) list"

definition new_analyzer :: analyzer where
  "new_analyzer = \<lparr>
     supportSections = [],
     crawledUrls = [],
     maxDepth = 3,
     currentDepth = 0,
     supportPatterns = [
       ''/help'', ''/support'', ''/faq'', ''/contact'', ''/customer-service'',
       ''/documentation'', ''/docs'', ''/knowledge-base'', ''/help-center'',
       ''/cancellation'', ''/refund'', ''/billing'', ''/terms'', ''/policy''],
     contentTypes = [
       (''faq'', [''faq'', ''frequently asked'', ''common questions'']),
       (''policy'', [''policy'', ''terms'', ''conditions'', ''agreement'']),
       (''contact'', [''contact'', ''support'', ''help'', ''customer service'']),
       (''billing'', [''billing'', ''payment'', ''subscription'', ''pricing'']),
       (''cancellation'', [''cancel'', ''cancellation'', ''unsubscribe'', ''terminate'']),
       (''refund'', [''refund'', ''return'', ''money back'', ''reimbursement''])]
   \<rparr>"

section \<open>The environment\<close>

text \<open>
  The reply to a \<open>fetchPageContent\<close> message as the callback of \<open>crawlSinglePage\<close> reads
  it: whether \<open>response.success\<close> is truthy, \<open>response.html\<close> and \<open>response.error\<close>.
\<close>

record response =
  success :: bool
  html :: string
  error :: "string option"

text \<open>
  \<open>handleMessage\<close> of the background script, the only listener that answers a message of
  the content script: a request whose action is none of the three it has a case for is
  answered with \<open>{error: 'Unknown action'}\<close>. The replies to the three actions it knows
  are sent by other methods and are no part of the analysis (\<open>None\<close> here).
\<close>

definition handleMessage :: "string \<Rightarrow> response option" where
  "handleMessage action =
     (if action = ''getTabInfo'' \<or> action = ''storeKnowledgeBase'' \<or> action = ''getKnowledgeBase''
      then None
      else Some \<lparr>success = False, html = [], error = Some ''Unknown action''\<rparr>)"

text \<open>
  Methods the source calls on the analyzer and does not define, taken as parameters.
  \<open>analyzeCurrentPage\<close> and \<open>checkRobotsTxt\<close> may throw an error object (the first is the
  session's only fatal step in the specification, the second is called in a \<open>try\<close>); the others are
  total, as the specification describes them (generated candidates are produced without a
  check, extraction and structuring never fail). None of them reads or writes a field of
  the analyzer. \<open>checkRobotsTxt\<close> and \<open>generateCommonSupportUrls\<close> return link objects
  with their identities.
\<close>

record helpers =
  analyzeCurrentPage :: "exn + jsval"
  checkRobotsTxt :: "string \<Rightarrow> exn + (nat \<times> link_info) list"
  generateCommonSupportUrls :: "string \<Rightarrow> (nat \<times> link_info) list"
  getLinkLocation :: "string list \<times> node \<Rightarrow> jsval"
  extractTables :: "dom \<Rightarrow> jsval"
  extractForms :: "dom \<Rightarrow> jsval"
  extractMetadata :: "dom \<Rightarrow> jsval"
  identifyContentSections :: "content \<Rightarrow> jsval"
  extractPolicies :: "content \<Rightarrow> jsval"
  extractProcedures :: "content \<Rightarrow> jsval"
  extractActionableFromPage :: "processed_page \<Rightarrow> actionable \<Rightarrow> actionable"

text \<open>
  What the browser gives one run of the analysis:
  \<^item> \<open>location_origin\<close>, \<open>location_href\<close>: \<open>window.location\<close>;
  \<^item> \<open>newURL h b\<close>: \<open>new URL(h, b).href\<close>, which throws on a string that is not a URL;
  \<^item> \<open>document\<close>: the page with its mode;
  \<^item> \<open>httpFetch u\<close>: \<open>fetch(u)\<close>, which settles: a rejection, or \<open>response.ok\<close> with
    the result of \<open>response.text()\<close>;
  \<^item> \<open>parseXml\<close>, \<open>parseHtml\<close>: \<open>DOMParser.parseFromString\<close>, which never throws;
  \<^item> \<open>sendMessage k u\<close>: the reply the callback of \<open>chrome.runtime.sendMessage\<close> gets
    for the link at position \<open>k\<close> of the crawled sequence (\<open>None\<close>: no reply object);
    with the background script of the repository it is \<open>handleMessage ''fetchPageContent''\<close>;
  \<^item> \<open>latency k\<close>: when that reply arrives; replies of one batch arrive by latency;
  \<^item> \<open>crawlTime k\<close>, \<open>endTime\<close>: \<open>new Date().toISOString()\<close> at the two places that read
    the clock;
  \<^item> \<open>matchEmails\<close>, \<open>matchPhones\<close>: \<open>String.match\<close> with the two regular expressions of
    \<open>extractContactInfo\<close> (\<open>[]\<close> for no match).
\<close>

record env =
  location_origin :: string
  location_href :: string
  newURL :: "string \<Rightarrow> string \<Rightarrow> exn + string"
  document :: dom
  httpFetch :: "string \<Rightarrow> exn + (bool \<times> (exn + string))"
  parseXml :: "string \<Rightarrow> dom"
  parseHtml :: "string \<Rightarrow> dom"
  sendMessage :: "nat \<Rightarrow> string \<Rightarrow> response option"
  latency :: "nat \<Rightarrow> nat"
  crawlTime :: "nat \<Rightarrow> string"
  endTime :: string
  matchEmails :: "string \<Rightarrow> string list"
  matchPhones :: "string \<Rightarrow> string list"
  absent :: helpers

section \<open>URL resolver and classifier\<close>

definition supportKeywords :: "string list" where
  "supportKeywords = [
     ''help'', ''support'', ''faq'', ''contact'', ''customer'', ''service'',
     ''documentation'', ''docs'', ''knowledge'', ''cancel'', ''refund'',
     ''billing'', ''payment'', ''terms'', ''policy'', ''privacy'']"

definition isSupportRelated :: "string \<Rightarrow> string \<Rightarrow> bool" where
  "isSupportRelated u t = some_included supportKeywords (toLowerCase (u @ '' '' @ t))"

text \<open>The \<open>for\<close> loop of \<open>categorizeLink\<close> over the entries of \<open>contentTypes\<close>.\<close>

fun categorize_loop :: "(string \<times> string list) list \<Rightarrow> string \<Rightarrow> string" where
  "categorize_loop [] combined = ''general''"
| "categorize_loop ((category, keywords) # rest) combined =
     (if some_included keywords combined then category else categorize_loop rest combined)"

definition categorizeLink :: "analyzer \<Rightarrow> string \<Rightarrow> string \<Rightarrow> string" where
  "categorizeLink a u t = categorize_loop (contentTypes a) (toLowerCase (u @ '' '' @ t))"

definition resolveUrl :: "env \<Rightarrow> string \<Rightarrow> exn + string" where
  "resolveUrl e h =
     (if startsWith h ''http'' then Inr h
      else if startsWith h ''/'' then Inr (location_origin e @ h)
      else newURL e h (location_href e))"

section \<open>Link discovery\<close>

text \<open>
  The body of the \<open>forEach\<close> of \<open>findNavigationLinks\<close> for the anchor at position \<open>k\<close>:
  the link it pushes, nothing when the anchor is not support related, or the error
  \<open>resolveUrl\<close> throws.
\<close>

definition nav_link :: "env \<Rightarrow> analyzer \<Rightarrow> nat \<times> string list \<times> node \<Rightarrow> exn + link_obj list" where
  "nav_link e a x =
     (case x of (k, anc, el) \<Rightarrow>
       (case getAttribute el ''href'' of
          None \<Rightarrow> Inl (JsError ''Cannot read properties of null'')
        | Some h \<Rightarrow>
            let t = trim (toLowerCase (textContent el)) in
            (case resolveUrl e h of
               Inl err \<Rightarrow> Inl err
             | Inr u \<Rightarrow>
                 if isSupportRelated u t
                 then Inr [(NavObj k,
                        \<lparr>url = u, linkText = Some t, linkType = Some (categorizeLink a u t),
                         source = None, location = Some (getLinkLocation (absent e) (anc, el))\<rparr>)]
                 else Inr [])))"

text \<open>The \<open>forEach\<close> itself: an error thrown by one anchor ends the scan.\<close>

fun nav_loop :: "env \<Rightarrow> analyzer \<Rightarrow> (nat \<times> string list \<times> node) list \<Rightarrow> link_obj list \<Rightarrow> exn + link_obj list" where
  "nav_loop e a [] links = Inr links"
| "nav_loop e a (x # rest) links =
     (case nav_link e a x of
        Inl err \<Rightarrow> Inl err
      | Inr pushed \<Rightarrow> nav_loop e a rest (links @ pushed))"

definition findNavigationLinks :: "env \<Rightarrow> analyzer \<Rightarrow> exn + link_obj list" where
  "findNavigationLinks e a =
     nav_loop e a (enumerate 0 (querySelectorAll' (document e) [TagWithAttr ''a'' ''href''])) []"

text \<open>
  One round of the loop of \<open>checkSitemap\<close>, for the sitemap file number \<open>j\<close>: the links it
  pushes. A rejected \<open>fetch\<close> or \<open>text()\<close> is caught and logged, and pushes nothing.
\<close>

definition sitemap_link :: "analyzer \<Rightarrow> nat \<Rightarrow> nat \<times> node \<Rightarrow> link_obj list" where
  "sitemap_link a j x =
     (case x of (k, urlElement) \<Rightarrow>
        let u = textContent urlElement in
        if isSupportRelated u []
        then [(SitemapObj j k,
               \<lparr>url = u, linkText = None, linkType = Some (categorizeLink a u []),
                source = Some ''sitemap'', location = None\<rparr>)]
        else [])"

definition sitemap_round :: "env \<Rightarrow> analyzer \<Rightarrow> nat \<times> string \<Rightarrow> link_obj list" where
  "sitemap_round e a x =
     (case x of (j, sitemapUrl) \<Rightarrow>
       (case httpFetch e sitemapUrl of
          Inl err \<Rightarrow> []
        | Inr (ok, body) \<Rightarrow>
            if ok then
              (case body of
                 Inl err \<Rightarrow> []
               | Inr t \<Rightarrow>
                   concat (map (sitemap_link a j)
                     (enumerate 0 (querySelectorAll (parseXml e t)
                        [Below ''url'' ''loc'', Below ''sitemap'' ''loc'']))))
            else []))"

definition checkSitemap :: "env \<Rightarrow> analyzer \<Rightarrow> string \<Rightarrow> link_obj list" where
  "checkSitemap e a baseUrl =
     concat (map (sitemap_round e a)
       (enumerate 0 [baseUrl @ ''/sitemap.xml'', baseUrl @ ''/sitemap_index.xml'']))"

text \<open>
  \<open>links.add(link)\<close> on the \<open>Set\<close> of link objects: an object is added unless the very
  same object is already a member. \<open>xs.forEach(link => links.add(link))\<close> adds in order.
\<close>

definition set_add :: "link_obj list \<Rightarrow> link_obj \<Rightarrow> link_obj list" where
  "set_add links link = (if fst link \<in> fst ` set links then links else links @ [link])"

definition add_each :: "link_obj list \<Rightarrow> link_obj list \<Rightarrow> link_obj list" where
  "add_each xs links = fold (\<lambda>link acc. set_add acc link) xs links"

definition discoverSupportLinks :: "env \<Rightarrow> analyzer \<Rightarrow> exn + link_info list" where
  "discoverSupportLinks e a =
     (let baseUrl = location_origin e in
      case findNavigationLinks e a of
        Inl err \<Rightarrow> Inl err
      | Inr navLinks \<Rightarrow>
          let links1 = add_each navLinks [];
              links2 = add_each (checkSitemap e a baseUrl) links1;
              links3 = (case checkRobotsTxt (absent e) baseUrl of
                          Inl err \<Rightarrow> links2
                        | Inr robotsLinks \<Rightarrow>
                            add_each (map (\<lambda>(i, l). (RobotsObj i, l)) robotsLinks) links2);
              links4 = add_each (map (\<lambda>(i, l). (CommonObj i, l))
                          (generateCommonSupportUrls (absent e) baseUrl)) links3
          in Inr (map snd links4))"

section \<open>Page extraction\<close>

definition unwantedSelectors :: "selector list" where
  "unwantedSelectors = [
     Tag ''script'', Tag ''style'', Tag ''nav'', Tag ''header'', Tag ''footer'',
     Class ''advertisement'', Class ''ads'', Class ''sidebar'', Class ''menu'']"

definition extractTitle :: "dom \<Rightarrow> string" where
  "extractTitle doc =
     (case querySelectorAll doc [Tag ''title''] of [] \<Rightarrow> [] | t # rest \<Rightarrow> trim (textContent t))"

definition heading_level :: "string \<Rightarrow> nat" where
  "heading_level t =
     (case map_of [(''h1'', 1), (''h2'', 2), (''h3'', 3), (''h4'', 4), (''h5'', 5), (''h6'', 6)] t of
        Some n \<Rightarrow> n
      | None \<Rightarrow> 0)"

definition extractHeadings :: "dom \<Rightarrow> heading list" where
  "extractHeadings doc =
     fold (\<lambda>h hs. hs @ [\<lparr>level = heading_level (tag h),
                            headingText = trim (textContent h),
                            headingId = (case getAttribute h ''id'' of
                                           None \<Rightarrow> None
                                         | Some v \<Rightarrow> if v = [] then None else Some v)\<rparr>])
       (querySelectorAll doc [Tag ''h1'', Tag ''h2'', Tag ''h3'', Tag ''h4'', Tag ''h5'', Tag ''h6''])
       []"

text \<open>
  \<open>extractParagraphs\<close>: the \<open>forEach\<close> over \<open>doc.querySelectorAll('p')\<close> pushes the trimmed
  text of a paragraph when it is longer than 20 characters.
\<close>

definition extractParagraphs :: "dom \<Rightarrow> string list" where
  "extractParagraphs doc =
     fold (\<lambda>p ps. let t = trim (textContent p) in if length t > 20 then ps @ [t] else ps)
       (querySelectorAll doc [Tag ''p''])
       []"

definition extractLists :: "dom \<Rightarrow> list_info list" where
  "extractLists doc =
     fold (\<lambda>l ls. let its = map (\<lambda>li. trim (textContent li)) (descendants doc l [Tag ''li''])
                   in if length its > 0 then ls @ [\<lparr>listType = toLowerCase (tag l), items = its\<rparr>]
                      else ls)
       (querySelectorAll doc [Tag ''ul'', Tag ''ol''])
       []"

text \<open>A \<open>Set\<close> of strings in insertion order: \<open>add\<close>, and \<open>[...new Set(xs)]\<close>.\<close>

definition str_set_add :: "string list \<Rightarrow> string \<Rightarrow> string list" where
  "str_set_add s x = (if x \<in> set s then s else s @ [x])"

definition str_set_of :: "string list \<Rightarrow> string list" where
  "str_set_of xs = fold (\<lambda>x s. str_set_add s x) xs []"

text \<open>\<open>extractContactInfo\<close> reads \<open>doc.body.textContent\<close>: a \<open>TypeError\<close> when \<open>doc.body\<close> is \<open>null\<close>.\<close>

definition extractContactInfo :: "env \<Rightarrow> dom \<Rightarrow> exn + contact_info" where
  "extractContactInfo e doc =
     (case doc_body doc of
        None \<Rightarrow> Inl (JsError ''Cannot read properties of null'')
      | Some b \<Rightarrow>
          let bodyText = textContent b in
          Inr \<lparr>emails = str_set_of (matchEmails e bodyText),
               phones = str_set_of (matchPhones e bodyText),
               addresses = filter (\<lambda>addr. length addr > 10)
                 (map (\<lambda>el. trim (textContent el))
                    (querySelectorAll doc
                       [AttrContains ''class'' ''address'', AttrContains ''class'' ''location'']))\<rparr>)"

text \<open>
  \<open>unwantedSelectors.forEach(selector => doc.querySelectorAll(selector).forEach(el => el.remove()))\<close>
\<close>

definition remove_unwanted :: "dom \<Rightarrow> dom" where
  "remove_unwanted doc = fold remove_all unwantedSelectors doc"

text \<open>
  \<open>extractContentFromHtml\<close>: the fields of the content are computed on the document that
  is left after the removal; the error of \<open>extractContactInfo\<close> is the only one they can
  throw.
\<close>

definition extractContentFromHtml :: "env \<Rightarrow> string \<Rightarrow> exn + content" where
  "extractContentFromHtml e h =
     (let doc = remove_unwanted (parseHtml e h) in
      case extractContactInfo e doc of
        Inl err \<Rightarrow> Inl err
      | Inr ci \<Rightarrow>
          Inr \<lparr>title = extractTitle doc,
               headings = extractHeadings doc,
               paragraphs = extractParagraphs doc,
               lists = extractLists doc,
               tables = extractTables (absent e) doc,
               forms = extractForms (absent e) doc,
               contactInfo = ci,
               metadata = extractMetadata (absent e) doc\<rparr>)"

section \<open>Crawling\<close>

text \<open>
  \<open>crawlSinglePage\<close> for the link at position \<open>k\<close>. The promise is settled inside the
  callback of \<open>sendMessage\<close>: rejected when the reply is missing or not a success, resolved
  with the extracted content otherwise. An error thrown by \<open>extractContentFromHtml\<close>
  leaves the callback before \<open>resolve\<close> is called, so the promise stays pending.
\<close>

definition crawlSinglePage :: "env \<Rightarrow> nat \<Rightarrow> string \<Rightarrow> content outcome" where
  "crawlSinglePage e k u =
     (case sendMessage e k u of
        None \<Rightarrow> Throws (JsError ''Failed to fetch content'')
      | Some r \<Rightarrow>
          if success r then
            (case extractContentFromHtml e (html r) of
               Inl err \<Rightarrow> Pending
             | Inr c \<Rightarrow> Returns c)
          else Throws (JsError (case error r of
                                  None \<Rightarrow> ''Failed to fetch content''
                                | Some m \<Rightarrow> if m = [] then ''Failed to fetch content'' else m)))"

text \<open>
  The \<open>async\<close> callback of \<open>batch.map\<close> after its test of \<open>crawledUrls\<close>: the page object when
  the fetch succeeds, \<open>null\<close> when the \<open>catch\<close> runs.
\<close>

definition link_result :: "env \<Rightarrow> nat \<times> link_info \<Rightarrow> crawled_page option outcome" where
  "link_result e x =
     (case x of (k, linkInfo) \<Rightarrow>
       (case crawlSinglePage e k (url linkInfo) of
          Returns c \<Rightarrow>
            Returns (Some \<lparr>pageUrl = url linkInfo, pageType = linkType linkInfo, pageContent = c,
              pageMetadata = \<lparr>crawledAt = crawlTime e k, metaLinkText = linkText linkInfo,
                metaSource = (case source linkInfo of
                                None \<Rightarrow> ''navigation''
                              | Some s \<Rightarrow> if s = [] then ''navigation'' else s)\<rparr>\<rparr>)
        | Throws err \<Rightarrow> Returns None
        | Pending \<Rightarrow> Pending))"

text \<open>
  What happens during a crawl, in order: the loop takes the batch of the links at some
  positions, a fetch is issued for the link at a position, its reply arrives (and the
  link's URL is added to \<open>crawledUrls\<close> when the page was crawled), the loop sleeps for a
  second.
\<close>

datatype fate = Crawled | Failed | Stuck

datatype event = BatchStart "nat list" | FetchIssued nat string | Replied nat string fate | BatchDelay

definition fate_of :: "crawled_page option outcome \<Rightarrow> fate" where
  "fate_of r = (case r of Returns (Some p) \<Rightarrow> Crawled | Returns None \<Rightarrow> Failed
                | Throws err \<Rightarrow> Failed | Pending \<Rightarrow> Stuck)"

text \<open>
  The state of the loop of \<open>crawlSupportPages\<close>: \<open>this.crawledUrls\<close> (\<open>visited\<close>), the
  local \<open>crawledContent\<close>, and the events so far.
\<close>

record crawl_state =
  visited :: "string list"
  crawledContent :: "(string \<times> crawled_page) list"
  trace :: "event list"

definition maxConcurrent :: nat where
  "maxConcurrent = 3"

text \<open>
  One batch. \<open>batch.map\<close> runs every callback up to its first \<open>await\<close> before any reply can
  arrive: all the tests of \<open>crawledUrls\<close> see the set as it is when the batch starts, and
  the fetches of the links that pass are issued in order. The replies then arrive by
  latency; the continuation of a crawled link adds its URL to \<open>crawledUrls\<close>.
\<close>

definition issued :: "string list \<Rightarrow> (nat \<times> link_info) list \<Rightarrow> (nat \<times> link_info) list" where
  "issued v batch = filter (\<lambda>x. url (snd x) \<notin> set v) batch"

definition arrivals :: "env \<Rightarrow> string list \<Rightarrow> (nat \<times> link_info) list \<Rightarrow> (nat \<times> link_info) list" where
  "arrivals e v batch = sort_key (\<lambda>x. latency e (fst x)) (issued v batch)"

definition batchResults :: "env \<Rightarrow> string list \<Rightarrow> (nat \<times> link_info) list \<Rightarrow> crawled_page option outcome list" where
  "batchResults e v batch =
     map (\<lambda>x. if url (snd x) \<in> set v then Returns None else link_result e x) batch"

definition batch_events :: "env \<Rightarrow> string list \<Rightarrow> (nat \<times> link_info) list \<Rightarrow> event list" where
  "batch_events e v batch =
     BatchStart (map fst batch) #
     map (\<lambda>x. FetchIssued (fst x) (url (snd x))) (issued v batch) @
     map (\<lambda>x. Replied (fst x) (url (snd x)) (fate_of (link_result e x))) (arrivals e v batch)"

definition batch_visited :: "env \<Rightarrow> string list \<Rightarrow> (nat \<times> link_info) list \<Rightarrow> string list" where
  "batch_visited e v batch =
     fold (\<lambda>x s. if fate_of (link_result e x) = Crawled then str_set_add s (url (snd x)) else s)
       (arrivals e v batch) v"

text \<open>\<open>batchResults.forEach(result => { if (result) crawledContent[result.url] = result })\<close>\<close>

definition add_results :: "crawled_page option outcome list \<Rightarrow> (string \<times> crawled_page) list \<Rightarrow> (string \<times> crawled_page) list" where
  "add_results rs cc =
     fold (\<lambda>r acc. case r of Returns (Some p) \<Rightarrow> obj_assign acc (pageUrl p) p | _ \<Rightarrow> acc) rs cc"

text \<open>
  The \<open>for\<close> loop of \<open>crawlSupportPages\<close> at index \<open>i\<close>, on the links paired with their
  positions. \<open>Promise.all\<close> settles when every promise of the batch has settled: with a
  pending promise in the batch the loop never goes on (\<open>False\<close>).
\<close>

function crawl_loop :: "env \<Rightarrow> (nat \<times> link_info) list \<Rightarrow> nat \<Rightarrow> crawl_state \<Rightarrow> bool \<times> crawl_state" where
  "crawl_loop e links i st =
     (if i < length links then
        let batch = take maxConcurrent (drop i links);
            rs = batchResults e (visited st) batch;
            st1 = st\<lparr>visited := batch_visited e (visited st) batch,
                     trace := trace st @ batch_events e (visited st) batch\<rparr>
        in if Pending \<in> set rs then (False, st1)
           else
             let st2 = st1\<lparr>crawledContent := add_results rs (crawledContent st1)\<rparr>;
                 st3 = (if i + maxConcurrent < length links
                        then st2\<lparr>trace := trace st2 @ [BatchDelay]\<rparr> else st2)
             in crawl_loop e links (i + maxConcurrent) st3
      else (True, st))"
  by pat_completeness auto
termination
  by (relation "measure (\<lambda>(e, links, i, st). length links - i)") (auto simp: maxConcurrent_def)

declare crawl_loop.simps [simp del]

text \<open>
  \<open>crawlSupportPages\<close>: the crawled content when the loop ends, the analyzer with its
  \<open>crawledUrls\<close> as the crawl leaves them, and the events of the crawl.
\<close>

definition crawlSupportPages :: "env \<Rightarrow> link_info list \<Rightarrow> analyzer \<Rightarrow> (string \<times> crawled_page) list outcome \<times> analyzer \<times> event list" where
  "crawlSupportPages e supportLinks a =
     (case crawl_loop e (enumerate 0 supportLinks) 0
             \<lparr>visited = crawledUrls a, crawledContent = [], trace = []\<rparr> of
        (finished, st) \<Rightarrow>
          (if finished then Returns (crawledContent st) else Pending,
           a\<lparr>crawledUrls := visited st\<rparr>,
           trace st))"

section \<open>Structuring and the entry point\<close>

text \<open>The property key a link type is used as: \<open>undefined\<close> becomes the key \<open>"undefined"\<close>.\<close>

definition type_key :: "string option \<Rightarrow> string" where
  "type_key t = (case t of None \<Rightarrow> ''undefined'' | Some s \<Rightarrow> s)"

text \<open>
  The \<open>forEach\<close> of \<open>processAndStructureContent\<close> over the entries of the crawled content.
  \<open>structured[type] = structured[type] || []\<close> reads an inherited property when
  \<open>structured\<close> has none of its own for the key: for a key of \<open>Object.prototype\<close> the value
  read is not an array, and the call of its \<open>push\<close> throws a \<open>TypeError\<close>.
\<close>

fun structure_loop :: "env \<Rightarrow> (string \<times> crawled_page) list \<Rightarrow> (string \<times> processed_page list) list \<Rightarrow> exn + (string \<times> processed_page list) list" where
  "structure_loop e [] structured = Inr structured"
| "structure_loop e (entry # rest) structured =
     (case entry of (u, pageData) \<Rightarrow>
        let processed = \<lparr>procUrl = u,
              procType = pageType pageData,
              procTitle = title (pageContent pageData),
              sections = identifyContentSections (absent e) (pageContent pageData),
              policies = extractPolicies (absent e) (pageContent pageData),
              procedures = extractProcedures (absent e) (pageContent pageData),
              procContactInfo = contactInfo (pageContent pageData),
              lastUpdated = crawledAt (pageMetadata pageData)\<rparr>;
            k = type_key (pageType pageData)
        in (case map_of structured k of
              Some ps \<Rightarrow> structure_loop e rest (obj_set structured k (ps @ [processed]))
            | None \<Rightarrow>
                if k \<in> set object_prototype_keys
                then Inl (JsError ''structured[pageData.type].push is not a function'')
                else structure_loop e rest (obj_set structured k [processed])))"

definition processAndStructureContent :: "env \<Rightarrow> (string \<times> crawled_page) list \<Rightarrow> exn + (string \<times> processed_page list) list" where
  "processAndStructureContent e cc = structure_loop e cc []"

definition empty_actionable :: actionable where
  "empty_actionable = [
     (''cancellation'',
        [(''steps'', []), (''requirements'', []), (''deadlines'', []), (''contactMethods'', [])]),
     (''refunds'',
        [(''policies'', []), (''timeframes'', []), (''procedures'', []), (''exceptions'', [])]),
     (''billing'',
        [(''paymentMethods'', []), (''cycles'', []), (''issues'', []), (''contacts'', [])]),
     (''contact'',
        [(''emails'', []), (''phones'', []), (''hours'', []), (''departments'', [])])]"

definition extractActionableInformation :: "env \<Rightarrow> (string \<times> processed_page list) list \<Rightarrow> actionable" where
  "extractActionableInformation e structuredData =
     fold (\<lambda>entry act. fold (extractActionableFromPage (absent e)) (snd entry) act)
       structuredData empty_actionable"

text \<open>
  \<open>performDeepAnalysis\<close>: what its promise does, and the analyzer afterwards. The \<open>catch\<close>
  turns a thrown error into \<open>{error: error.message}\<close>; nothing turns a promise that stays
  pending into a result.
\<close>

definition performDeepAnalysis :: "env \<Rightarrow> analyzer \<Rightarrow> analysis_result outcome \<times> analyzer" where
  "performDeepAnalysis e a =
     (case analyzeCurrentPage (absent e) of
        Inl err \<Rightarrow> (Returns (Failure (message err)), a)
      | Inr currentPageData \<Rightarrow>
          (case discoverSupportLinks e a of
             Inl err \<Rightarrow> (Returns (Failure (message err)), a)
           | Inr supportLinks \<Rightarrow>
               (case crawlSupportPages e supportLinks a of
                  (r, a', tr) \<Rightarrow>
                    (case r of
                       Pending \<Rightarrow> (Pending, a')
                     | Throws err \<Rightarrow> (Returns (Failure (message err)), a')
                     | Returns cc \<Rightarrow>
                         (case processAndStructureContent e cc of
                            Inl err \<Rightarrow> (Returns (Failure (message err)), a')
                          | Inr structuredData \<Rightarrow>
                              let actionableData = extractActionableInformation e structuredData
                              in (Returns (Analysis
                                    \<lparr>currentPage = currentPageData,
                                     resultSections = structuredData,
                                     actionableInfo = actionableData,
                                     crawlStats = \<lparr>pagesAnalyzed = length (crawledUrls a'),
                                                   statContentTypes = map fst structuredData,
                                                   timestamp = endTime e\<rparr>\<rparr>), a'))))))"

section \<open>Events of a crawl\<close>

text \<open>
  The number of fetches in flight after a sequence of events: the fetches issued whose
  reply has not arrived (every reply answers a fetch issued before it).
\<close>

fun is_issue :: "event \<Rightarrow> bool" where
  "is_issue (FetchIssued k u) = True"
| "is_issue ev = False"

fun is_reply :: "event \<Rightarrow> bool" where
  "is_reply (Replied k u f) = True"
| "is_reply ev = False"

definition in_flight :: "event list \<Rightarrow> nat" where
  "in_flight tr = length (filter is_issue tr) - length (filter is_reply tr)"

text \<open>\<open>crawledUrls\<close> after a sequence of events, from its value \<open>v\<close> before them.\<close>

fun visit :: "event \<Rightarrow> string list \<Rightarrow> string list" where
  "visit (Replied k u Crawled) v = str_set_add v u"
| "visit ev v = v"

definition visited_after :: "string list \<Rightarrow> event list \<Rightarrow> string list" where
  "visited_after v tr = fold visit tr v"

text \<open>The batches and the delays among the events, in order.\<close>

fun is_schedule :: "event \<Rightarrow> bool" where
  "is_schedule (BatchStart ps) = True"
| "is_schedule BatchDelay = True"
| "is_schedule ev = False"

definition schedule :: "event list \<Rightarrow> event list" where
  "schedule tr = filter is_schedule tr"

text \<open>
  The schedule that cuts \<open>n\<close> links into consecutive batches of \<open>maxConcurrent\<close> (the last
  one possibly smaller), with a delay between two batches: none before the first batch,
  none after the last.
\<close>

fun between :: "'a \<Rightarrow> 'a list \<Rightarrow> 'a list" where
  "between d [] = []"
| "between d [x] = [x]"
| "between d (x # y # zs) = x # d # between d (y # zs)"

definition batch_positions :: "nat \<Rightarrow> nat \<Rightarrow> nat list" where
  "batch_positions n j = [maxConcurrent * j ..< min (maxConcurrent * j + maxConcurrent) n]"

definition batch_count :: "nat \<Rightarrow> nat" where
  "batch_count n = (n + maxConcurrent - 1) div maxConcurrent"

definition planned :: "nat \<Rightarrow> event list" where
  "planned n = between BatchDelay (map (\<lambda>j. BatchStart (batch_positions n j)) [0 ..< batch_count n])"

section \<open>Definitions for the proofs\<close>

text \<open>
  The loop of the crawl in two steps: the batch at index \<open>i\<close>, the state once the replies
  of that batch have arrived, and the state when the loop goes on to the next batch.
\<close>

definition the_batch :: "(nat \<times> link_info) list \<Rightarrow> nat \<Rightarrow> (nat \<times> link_info) list" where
  "the_batch links i = take maxConcurrent (drop i links)"

definition after_replies :: "env \<Rightarrow> (nat \<times> link_info) list \<Rightarrow> nat \<Rightarrow> crawl_state \<Rightarrow> crawl_state" where
  "after_replies e links i st =
     st\<lparr>visited := batch_visited e (visited st) (the_batch links i),
        trace := trace st @ batch_events e (visited st) (the_batch links i)\<rparr>"

definition after_batch :: "env \<Rightarrow> (nat \<times> link_info) list \<Rightarrow> nat \<Rightarrow> crawl_state \<Rightarrow> crawl_state" where
  "after_batch e links i st =
     (let st1 = after_replies e links i st;
          st2 = st1\<lparr>crawledContent :=
                  add_results (batchResults e (visited st) (the_batch links i)) (crawledContent st1)\<rparr>
      in if i + maxConcurrent < length links then st2\<lparr>trace := trace st2 @ [BatchDelay]\<rparr> else st2)"

text \<open>
  Invariants of the events: as many replies as fetches issued, at most \<open>maxConcurrent\<close>
  fetches in flight after every initial part, every fetch issued for a URL that is not
  visited at that time, and every fetch issued for a link of the sequence.
\<close>

definition balanced :: "event list \<Rightarrow> bool" where
  "balanced tr = (length (filter is_issue tr) = length (filter is_reply tr))"

definition flight_ok :: "event list \<Rightarrow> bool" where
  "flight_ok tr = (\<forall>pre. prefix pre tr \<longrightarrow> in_flight pre \<le> maxConcurrent)"

definition fresh_issues :: "string list \<Rightarrow> event list \<Rightarrow> bool" where
  "fresh_issues v0 tr =
     (\<forall>pre k u. prefix (pre @ [FetchIssued k u]) tr \<longrightarrow> u \<notin> set (visited_after v0 pre))"

definition issues_from :: "(nat \<times> link_info) list \<Rightarrow> event list \<Rightarrow> bool" where
  "issues_from links tr = (\<forall>k u. FetchIssued k u \<in> set tr \<longrightarrow> (\<exists>l. (k, l) \<in> set links \<and> url l = u))"

text \<open>
  The events of a batch are its start and the fetches issued, then the replies.
\<close>

definition batch_head :: "string list \<Rightarrow> (nat \<times> link_info) list \<Rightarrow> event list" where
  "batch_head v b = BatchStart (map fst b) # map (\<lambda>x. FetchIssued (fst x) (url (snd x))) (issued v b)"

definition batch_replies :: "env \<Rightarrow> string list \<Rightarrow> (nat \<times> link_info) list \<Rightarrow> event list" where
  "batch_replies e v b =
     map (\<lambda>x. Replied (fst x) (url (snd x)) (fate_of (link_result e x))) (arrivals e v b)"

text \<open>
  A fetch fails when there is no reply or the reply is not a success. The URLs a crawl can
  add to \<open>crawledUrls\<close> and to the crawled content are those of the links whose page is
  crawled.
\<close>

definition fetch_fails :: "env \<Rightarrow> nat \<Rightarrow> string \<Rightarrow> bool" where
  "fetch_fails e k u = (case sendMessage e k u of None \<Rightarrow> True | Some r \<Rightarrow> \<not> success r)"



text \<open>
  The schedule at the head of the loop at index \<open>i\<close>: every batch so far was followed by a
  delay.
\<close>

definition positions_ok :: "(nat \<times> link_info) list \<Rightarrow> bool" where
  "positions_ok links = (map fst links = [0 ..< length links])"

definition head_schedule :: "nat \<Rightarrow> nat \<Rightarrow> event list" where
  "head_schedule n i =
     concat (map (\<lambda>j. [BatchStart (batch_positions n j), BatchDelay]) [0 ..< i div maxConcurrent])"

definition on_schedule :: "nat \<Rightarrow> nat \<Rightarrow> crawl_state \<Rightarrow> bool" where
  "on_schedule n i st =
     (maxConcurrent dvd i \<and>
      schedule (trace st) = (if i < n then head_schedule n i else planned n))"



section \<open>Example sites\<close>

text \<open>
  Stand-ins for the methods that are not in the source: the page analysis succeeds,
  \<open>robots.txt\<close> gives no link, no common URL is generated, and the extractors return
  empty values.
\<close>

definition no_helpers :: helpers where
  "no_helpers = \<lparr>
     analyzeCurrentPage = Inr ''{}'',
     checkRobotsTxt = (\<lambda>b. Inr []),
     generateCommonSupportUrls = (\<lambda>b. []),
     getLinkLocation = (\<lambda>x. ''body''),
     extractTables = (\<lambda>d. ''[]''),
     extractForms = (\<lambda>d. ''[]''),
     extractMetadata = (\<lambda>d. ''{}''),
     identifyContentSections = (\<lambda>c. ''[]''),
     extractPolicies = (\<lambda>c. ''[]''),
     extractProcedures = (\<lambda>c. ''[]''),
     extractActionableFromPage = (\<lambda>p act. act)\<rparr>"

text \<open>
  The HTML texts the examples parse, with their trees: none has a doctype, so the documents
  are in quirks mode, and the parser supplies \<open>html\<close>, \<open>head\<close> and \<open>body\<close>. A text that
  is not in the list stands for a text without markup.
\<close>

definition html_page :: "node list \<Rightarrow> dom" where
  "html_page body = \<lparr>quirks = True, roots = [Elem ''html'' [] [Elem ''head'' [] [], Elem ''body'' [] body]]\<rparr>"

definition parsed_pages :: "(string \<times> dom) list" where
  "parsed_pages = [
     (''<body class=menu>Help</body>'',
      \<lparr>quirks = True,
       roots = [Elem ''html'' [] [Elem ''head'' [] [], Elem ''body'' [(''class'', ''menu'')] [Text ''Help'']]]\<rparr>),
     (''<nav><p>Read our refund policy here.</p></nav>'',
      html_page [Elem ''nav'' [] [Elem ''p'' [] [Text ''Read our refund policy here.'']]]),
     (''<p>Refunds are issued within thirty days.</p>'',
      html_page [Elem ''p'' [] [Text ''Refunds are issued within thirty days.'']]),
     (''<p>Hi there</p><p>     exactly twenty chars     </p>'',
      html_page [Elem ''p'' [] [Text ''Hi there''], Elem ''p'' [] [Text ''     exactly twenty chars     '']]),
     (''<p> Refunds are issued within thirty days. </p><p>Hi there</p><div class=ADS><p>Buy one and get one free today!</p></div><p>Contact the <b>billing</b> team.</p>'',
      html_page [Elem ''p'' [] [Text '' Refunds are issued within thirty days. ''],
                 Elem ''p'' [] [Text ''Hi there''],
                 Elem ''div'' [(''class'', ''ADS'')] [Elem ''p'' [] [Text ''Buy one and get one free today!'']],
                 Elem ''p'' [] [Text ''Contact the '', Elem ''b'' [] [Text ''billing''], Text '' team.'']])]"

text \<open>
  The page \<open>https://example.com/\<close> with one anchor \<open><a href="/faq">FAQ</a>\<close>, a
  \<open>sitemap.xml\<close> that lists \<open>https://example.com/refund-policy\<close>, and no
  \<open>sitemap_index.xml\<close>. Every \<open>fetchPageContent\<close> message is answered by the
  repository's own background script, which has no case for that action. The URL
  constructor rejects \<open>ftp://[\<close>; the examples give it no other href but \<open>help.html\<close> and
  \<open>httpfoo/bar\<close>, which it joins to the base.
\<close>

definition site :: env where
  "site = \<lparr>
     location_origin = ''https://example.com'',
     location_href = ''https://example.com/'',
     newURL = (\<lambda>h b. if h = ''ftp://['' then Inl (JsError ''Invalid URL'') else Inr (b @ h)),
     document = \<lparr>quirks = False,
                 roots = [Elem ''html'' [] [Elem ''body'' [] [Elem ''a'' [(''href'', ''/faq'')] [Text ''FAQ'']]]]\<rparr>,
     httpFetch = (\<lambda>u. if u = ''https://example.com/sitemap.xml'' then Inr (True, Inr ''<urlset>'')
                        else Inl (JsError ''Failed to fetch'')),
     parseXml = (\<lambda>t. \<lparr>quirks = False,
                       roots = [Elem ''urlset'' []
                         [Elem ''url'' [] [Elem ''loc'' [] [Text ''https://example.com/refund-policy'']]]]\<rparr>),
     parseHtml = (\<lambda>t. case map_of parsed_pages t of Some doc \<Rightarrow> doc | None \<Rightarrow> html_page [Text t]),
     sendMessage = (\<lambda>k u. handleMessage ''fetchPageContent''),
     latency = (\<lambda>k. 0),
     crawlTime = (\<lambda>k. ''2025-01-01T00:00:00.000Z''),
     endTime = ''2025-01-01T00:00:09.000Z'',
     matchEmails = (\<lambda>t. []),
     matchPhones = (\<lambda>t. []),
     absent = no_helpers\<rparr>"

text \<open>The same site when the navigation and the sitemap both name \<open>https://example.com/faq\<close>.\<close>

definition twice_site :: env where
  "twice_site = site\<lparr>
     document := \<lparr>quirks = False,
                  roots = [Elem ''html'' [] [Elem ''body'' []
                    [Elem ''a'' [(''href'', ''https://example.com/faq'')] [Text ''FAQ'']]]]\<rparr>,
     parseXml := (\<lambda>t. \<lparr>quirks = False,
                        roots = [Elem ''urlset'' []
                          [Elem ''url'' [] [Elem ''loc'' [] [Text ''https://example.com/faq'']]]]\<rparr>)\<rparr>"

text \<open>The same site with an anchor \<open><a href="ftp://[">help</a>\<close> before the FAQ anchor.\<close>

definition bad_href_site :: env where
  "bad_href_site = site\<lparr>
     document := \<lparr>quirks = False,
                  roots = [Elem ''html'' [] [Elem ''body'' []
                    [Elem ''a'' [(''href'', ''ftp://['')] [Text ''help''],
                     Elem ''a'' [(''href'', ''/faq'')] [Text ''FAQ'']]]]\<rparr>\<rparr>"

text \<open>
  The site with a background script that fetches, which the repository does not have:
  every page is \<open><p>Refunds are issued within thirty days.</p>\<close>
\<close>

definition fetching_site :: env where
  "fetching_site = site\<lparr>
     sendMessage := (\<lambda>k u. Some \<lparr>success = True, html = ''<p>Refunds are issued within thirty days.</p>'',
                                   error = None\<rparr>)\<rparr>"

text \<open>
  The fetching site when the first page crawled is \<open><body class=menu>Help</body>\<close>:
  removing the elements of class \<open>menu\<close> removes the body.
\<close>

definition menu_site :: env where
  "menu_site = site\<lparr>
     sendMessage := (\<lambda>k u. Some \<lparr>success = True,
                                   html = (if k = 0 then ''<body class=menu>Help</body>''
                                           else ''<p>Refunds are issued within thirty days.</p>''),
                                   error = None\<rparr>)\<rparr>"

definition link_to :: "string \<Rightarrow> link_info" where
  "link_to u = \<lparr>url = u, linkText = None, linkType = Some ''general'', source = Some ''sitemap'',
                location = None\<rparr>"

definition five_links :: "link_info list" where
  "five_links = [link_to ''/a'', link_to ''/b'', link_to ''/c'', link_to ''/d'', link_to ''/e'']"

text \<open>Four links, three of them with the same URL.\<close>

definition repeated_links :: "link_info list" where
  "repeated_links = [link_to ''/a'', link_to ''/a'', link_to ''/b'', link_to ''/a'']"


section \<open>Lemmas\<close>

subsection \<open>Strings and categories\<close>

lemma toLowerCase_append: "toLowerCase (xs @ ys) = toLowerCase xs @ toLowerCase ys"
  by (simp add: toLowerCase_def)

lemma str_includes_append_right: "str_includes ys k \<Longrightarrow> str_includes (xs @ ys) k"
proof (induction xs)
  case Nil
  then show ?case by simp
next
  case (Cons x xs)
  then show ?case by simp
qed

lemma lower_faq: "toLowerCase ''/faq faq'' = ''/faq faq''"
  by code_simp

lemma cat_faq: "categorizeLink new_analyzer (orig @ ''/faq'') ''faq'' = ''faq''"
proof -
  have "str_includes (toLowerCase orig @ ''/faq faq'') ''faq''"
    by (rule str_includes_append_right) simp
  then show ?thesis
    by (simp add: categorizeLink_def new_analyzer_def toLowerCase_append lower_faq some_included_def
          del: str_includes.simps)
qed

lemma sup_faq: "isSupportRelated (orig @ ''/faq'') ''faq''"
proof -
  have "str_includes (toLowerCase orig @ ''/faq faq'') ''faq''"
    by (rule str_includes_append_right) simp
  then show ?thesis
    by (simp add: isSupportRelated_def supportKeywords_def toLowerCase_append lower_faq some_included_def
          del: str_includes.simps)
qed

lemma cat_refund_policy: "categorizeLink new_analyzer ''https://example.com/refund-policy'' [] = ''policy''"
  by code_simp

lemma sup_refund_policy: "isSupportRelated ''https://example.com/refund-policy'' []"
  by code_simp

subsection \<open>Paragraphs\<close>



subsection \<open>Removing elements\<close>














lemma extractContactInfo_throws_iff:
  "(\<exists>err. extractContactInfo e doc = Inl err) \<longleftrightarrow> doc_body doc = None"
  by (auto simp: extractContactInfo_def Let_def split: option.splits)



subsection \<open>The navigation scan\<close>

text \<open>
  An error thrown for one anchor is the result of the whole scan.
\<close>

lemma nav_loop_throws:
  "x \<in> set xs \<Longrightarrow> nav_link e a x = Inl err \<Longrightarrow> \<exists>err'. nav_loop e a xs acc = Inl err'"
proof (induction xs arbitrary: acc)
  case Nil
  then show ?case by simp
next
  case (Cons y ys)
  show ?case
  proof (cases "nav_link e a y")
    case (Inl err0)
    then show ?thesis by simp
  next
    case (Inr pushed)
    with Cons.prems have "x \<in> set ys" by auto
    with Cons.IH Cons.prems(2) Inr show ?thesis by simp
  qed
qed

lemma nav_link_throws:
  "getAttribute el ''href'' = Some h \<Longrightarrow> resolveUrl e h = Inl err \<Longrightarrow> nav_link e a (k, anc, el) = Inl err"
  by (simp add: nav_link_def)

subsection \<open>Link objects in the set\<close>

text \<open>
  The objects of the navigation scan and of the sitemap scan are all different, so the
  \<open>Set\<close> of discovery keeps every one of them: the list it returns starts with the
  navigation links, followed by the sitemap links, whatever their URLs.
\<close>

lemma add_each_fresh:
  "distinct (map fst xs) \<Longrightarrow> fst ` set xs \<inter> fst ` set links = {} \<Longrightarrow> add_each xs links = links @ xs"
  unfolding add_each_def
proof (induction xs arbitrary: links)
  case Nil
  then show ?case by simp
next
  case (Cons x xs)
  from Cons.prems(2) have new: "fst x \<notin> fst ` set links" by auto
  then have step: "set_add links x = links @ [x]" by (simp add: set_add_def)
  have "fst ` set xs \<inter> fst ` set (links @ [x]) = {}"
    using Cons.prems by auto
  with Cons.IH [of "links @ [x]"] Cons.prems(1) show ?case
    by (simp add: step)
qed

lemma add_each_grows: "\<exists>zs. add_each xs ys = ys @ zs"
  unfolding add_each_def
proof (induction xs arbitrary: ys)
  case Nil
  then show ?case by simp
next
  case (Cons x xs)
  obtain zs where "fold (\<lambda>link acc. set_add acc link) xs (set_add ys x) = set_add ys x @ zs"
    using Cons.IH by blast
  then show ?case by (auto simp: set_add_def)
qed

lemma sitemap_link_ids:
  "map fst (concat (map (sitemap_link a j) xs)) =
     map (\<lambda>x. SitemapObj j (fst x)) (filter (\<lambda>x. isSupportRelated (textContent (snd x)) []) xs)"
  by (induction xs) (auto simp: sitemap_link_def Let_def)

lemma sitemap_round_ids:
  "\<exists>ks. distinct ks \<and> map fst (sitemap_round e a (j, u)) = map (SitemapObj j) ks"
proof (cases "\<exists>t. httpFetch e u = Inr (True, Inr t)")
  case True
  then obtain t where t: "httpFetch e u = Inr (True, Inr t)" by blast
  let ?els = "enumerate 0 (querySelectorAll (parseXml e t) [Below ''url'' ''loc'', Below ''sitemap'' ''loc''])"
  let ?ks = "map fst (filter (\<lambda>x. isSupportRelated (textContent (snd x)) []) ?els)"
  have "distinct (map fst ?els)" by simp
  then have "distinct ?ks" by (rule distinct_map_filter)
  moreover have "map fst (sitemap_round e a (j, u)) = map (SitemapObj j) ?ks"
    by (simp add: sitemap_round_def t sitemap_link_ids)
  ultimately show ?thesis by blast
next
  case False
  then have "sitemap_round e a (j, u) = []"
    by (auto simp: sitemap_round_def split: sum.splits)
  then show ?thesis by (intro exI [of _ "[]"]) simp
qed

lemma checkSitemap_ids:
  "distinct (map fst (checkSitemap e a b)) \<and> fst ` set (checkSitemap e a b) \<inter> range NavObj = {}"
proof -
  obtain ks0 where k0: "distinct ks0" "map fst (sitemap_round e a (0, b @ ''/sitemap.xml'')) = map (SitemapObj 0) ks0"
    using sitemap_round_ids by blast
  obtain ks1 where k1: "distinct ks1" "map fst (sitemap_round e a (Suc 0, b @ ''/sitemap_index.xml'')) = map (SitemapObj (Suc 0)) ks1"
    using sitemap_round_ids by blast
  have m: "map fst (checkSitemap e a b) = map (SitemapObj 0) ks0 @ map (SitemapObj (Suc 0)) ks1"
    by (simp add: checkSitemap_def k0 k1)
  have "distinct (map (SitemapObj 0) ks0 @ map (SitemapObj (Suc 0)) ks1)"
    using k0(1) k1(1) by (auto simp: distinct_map inj_on_def)
  moreover have "fst ` set (checkSitemap e a b) = set (map fst (checkSitemap e a b))"
    by simp
  moreover have "set (map (SitemapObj 0) ks0 @ map (SitemapObj (Suc 0)) ks1) \<inter> range NavObj = {}"
    by auto
  ultimately show ?thesis
    by (simp only: m) 
qed

lemma nav_link_pushes:
  "nav_link e a x = Inr pushed \<Longrightarrow>
     map fst pushed = map NavObj (map fst (filter (\<lambda>y. nav_link e a y \<noteq> Inr []) [x]))"
  by (cases x) (auto simp: nav_link_def Let_def split: option.splits sum.splits if_splits)

lemma nav_loop_pushes:
  "nav_loop e a xs acc = Inr r \<Longrightarrow>
     \<exists>pushed. r = acc @ pushed \<and>
       map fst pushed = map NavObj (map fst (filter (\<lambda>y. nav_link e a y \<noteq> Inr []) xs))"
proof (induction xs arbitrary: acc)
  case Nil
  then show ?case by simp
next
  case (Cons y ys)
  from Cons.prems obtain p where p: "nav_link e a y = Inr p"
    and rest: "nav_loop e a ys (acc @ p) = Inr r"
    by (cases "nav_link e a y") auto
  from Cons.IH [OF rest] obtain q where q: "r = (acc @ p) @ q"
    "map fst q = map NavObj (map fst (filter (\<lambda>y. nav_link e a y \<noteq> Inr []) ys))"
    by blast
  have "map fst (p @ q) = map NavObj (map fst (filter (\<lambda>y. nav_link e a y \<noteq> Inr []) (y # ys)))"
    using nav_link_pushes [OF p] q(2) by simp
  with q(1) show ?case by (intro exI [of _ "p @ q"]) simp
qed

lemma findNavigationLinks_ids:
  assumes "findNavigationLinks e a = Inr navLinks"
  shows "distinct (map fst navLinks) \<and> fst ` set navLinks \<subseteq> range NavObj"
proof -
  let ?xs = "enumerate 0 (querySelectorAll' (document e) [TagWithAttr ''a'' ''href''])"
  from assms obtain pushed where "navLinks = [] @ pushed"
    and ids: "map fst pushed = map NavObj (map fst (filter (\<lambda>y. nav_link e a y \<noteq> Inr []) ?xs))"
    unfolding findNavigationLinks_def using nav_loop_pushes by blast
  then have nl: "navLinks = pushed" by simp
  have "distinct (map fst ?xs)" by simp
  then have "distinct (map fst (filter (\<lambda>y. nav_link e a y \<noteq> Inr []) ?xs))"
    by (rule distinct_map_filter)
  then have "distinct (map fst pushed)"
    unfolding ids by (simp add: distinct_map inj_on_def)
  moreover have "fst ` set pushed = set (map fst pushed)" by simp
  then have "fst ` set pushed \<subseteq> range NavObj"
    unfolding ids by auto
  ultimately show ?thesis by (simp add: nl)
qed

lemma discover_keeps_nav_and_sitemap:
  assumes d: "discoverSupportLinks e a = Inr links"
  shows "\<exists>navLinks rest. findNavigationLinks e a = Inr navLinks \<and>
           links = map snd navLinks @ map snd (checkSitemap e a (location_origin e)) @ rest"
proof -
  from d obtain navLinks where nav: "findNavigationLinks e a = Inr navLinks"
    by (cases "findNavigationLinks e a") (auto simp: discoverSupportLinks_def Let_def)
  let ?sm = "checkSitemap e a (location_origin e)"
  have l1: "add_each navLinks [] = navLinks"
    using findNavigationLinks_ids [OF nav] add_each_fresh [of navLinks "[]"] by simp
  have "fst ` set ?sm \<inter> fst ` set navLinks = {}"
    using findNavigationLinks_ids [OF nav] checkSitemap_ids [of e a "location_origin e"] by blast
  then have l2: "add_each ?sm navLinks = navLinks @ ?sm"
    using checkSitemap_ids [of e a "location_origin e"] add_each_fresh by blast
  let ?l3 = "case checkRobotsTxt (absent e) (location_origin e) of
               Inl err \<Rightarrow> navLinks @ ?sm
             | Inr robotsLinks \<Rightarrow> add_each (map (\<lambda>(i, l). (RobotsObj i, l)) robotsLinks) (navLinks @ ?sm)"
  have "\<exists>z3. ?l3 = (navLinks @ ?sm) @ z3"
  proof (cases "checkRobotsTxt (absent e) (location_origin e)")
    case (Inl err)
    then show ?thesis by simp
  next
    case (Inr robotsLinks)
    then show ?thesis
      using add_each_grows [of "map (\<lambda>(i, l). (RobotsObj i, l)) robotsLinks" "navLinks @ ?sm"]
      by auto
  qed
  then obtain z3 where z3: "?l3 = (navLinks @ ?sm) @ z3" by blast
  obtain z4 where z4: "add_each (map (\<lambda>(i, l). (CommonObj i, l))
      (generateCommonSupportUrls (absent e) (location_origin e))) ?l3 = ?l3 @ z4"
    using add_each_grows by blast
  have "links = map snd (add_each (map (\<lambda>(i, l). (CommonObj i, l))
      (generateCommonSupportUrls (absent e) (location_origin e))) ?l3)"
    using d nav l1 l2
    by (cases "checkRobotsTxt (absent e) (location_origin e)")
       (simp_all add: discoverSupportLinks_def Let_def)
  then have "links = map snd (?l3 @ z4)"
    by (simp only: z4)
  then have "links = map snd navLinks @ map snd ?sm @ map snd (z3 @ z4)"
    unfolding z3 by simp
  with nav show ?thesis by blast
qed

subsection \<open>The loop of the crawl\<close>

text \<open>
  The loop unfolds into the two steps, and a property that holds at the head of the loop
  and is kept by a batch holds when the loop ends or stops.
\<close>

lemma after_replies_fields:
  "visited (after_replies e links i st) = batch_visited e (visited st) (the_batch links i)"
  "crawledContent (after_replies e links i st) = crawledContent st"
  "trace (after_replies e links i st) = trace st @ batch_events e (visited st) (the_batch links i)"
  by (simp_all add: after_replies_def)

lemma after_batch_fields:
  "visited (after_batch e links i st) = batch_visited e (visited st) (the_batch links i)"
  "crawledContent (after_batch e links i st) =
     add_results (batchResults e (visited st) (the_batch links i)) (crawledContent st)"
  "trace (after_batch e links i st) =
     trace st @ batch_events e (visited st) (the_batch links i) @
       (if i + maxConcurrent < length links then [BatchDelay] else [])"
  by (simp_all add: after_batch_def after_replies_def Let_def)

lemma crawl_loop_unfold:
  "crawl_loop e links i st =
     (if i < length links then
        if Pending \<in> set (batchResults e (visited st) (the_batch links i))
        then (False, after_replies e links i st)
        else crawl_loop e links (i + maxConcurrent) (after_batch e links i st)
      else (True, st))"
  by (subst crawl_loop.simps) (simp add: Let_def the_batch_def after_replies_def after_batch_def)

lemma crawl_loop_rule:
  assumes run: "crawl_loop e links i st = (fin, st')"
    and init: "I i st"
    and step: "\<And>i st. I i st \<Longrightarrow> i < length links \<Longrightarrow>
                 Pending \<notin> set (batchResults e (visited st) (the_batch links i)) \<Longrightarrow>
                 I (i + maxConcurrent) (after_batch e links i st)"
    and stuck: "\<And>i st. I i st \<Longrightarrow> i < length links \<Longrightarrow>
                 Pending \<in> set (batchResults e (visited st) (the_batch links i)) \<Longrightarrow>
                 Q False (after_replies e links i st)"
    and finish: "\<And>i st. I i st \<Longrightarrow> \<not> i < length links \<Longrightarrow> Q True st"
  shows "Q fin st'"
  using run init
proof (induction "length links - i" arbitrary: i st rule: less_induct)
  case less
  show ?case
  proof (cases "i < length links")
    case False
    with less.prems finish show ?thesis
      by (auto simp: crawl_loop_unfold)
  next
    case True
    show ?thesis
    proof (cases "Pending \<in> set (batchResults e (visited st) (the_batch links i))")
      case True
      with \<open>i < length links\<close> less.prems stuck show ?thesis
        by (auto simp: crawl_loop_unfold)
    next
      case False
      have smaller: "length links - (i + maxConcurrent) < length links - i"
        using \<open>i < length links\<close> by (simp add: maxConcurrent_def)
      have next_run: "crawl_loop e links (i + maxConcurrent) (after_batch e links i st) = (fin, st')"
        using less.prems(1) \<open>i < length links\<close> False by (simp add: crawl_loop_unfold)
      from less.hyps [OF smaller next_run] step [OF less.prems(2) \<open>i < length links\<close> False]
      show ?thesis .
    qed
  qed
qed

lemma crawlSupportPages_run:
  assumes "crawlSupportPages e links a = (r, a', tr)"
  obtains fin st' where
    "crawl_loop e (enumerate 0 links) 0 \<lparr>visited = crawledUrls a, crawledContent = [], trace = []\<rparr> = (fin, st')"
    "r = (if fin then Returns (crawledContent st') else Pending)"
    "a' = a\<lparr>crawledUrls := visited st'\<rparr>"
    "tr = trace st'"
  using assms by (auto simp: crawlSupportPages_def split: prod.splits)

subsection \<open>Fetches in flight\<close>

lemma count_prefix: "prefix us xs \<Longrightarrow> length (filter P us) \<le> length (filter P xs)"
  by (auto simp: prefix_def)

lemma issue_count_batch: "length (filter is_issue (batch_events e v b)) = length (issued v b)"
  by (simp add: batch_events_def filter_map comp_def)

lemma reply_count_batch: "length (filter is_reply (batch_events e v b)) = length (issued v b)"
  by (simp add: batch_events_def arrivals_def filter_map comp_def)

lemma issued_le: "length (issued v b) \<le> length b"
  by (simp add: issued_def)

lemma the_batch_le: "length (the_batch links i) \<le> maxConcurrent"
  by (simp add: the_batch_def)

lemma in_flight_append_balanced: "balanced tr \<Longrightarrow> in_flight (tr @ us) = in_flight us"
  by (simp add: in_flight_def balanced_def)

lemma in_flight_le_issues: "in_flight us \<le> length (filter is_issue us)"
  by (simp add: in_flight_def)

lemma batch_in_flight:
  assumes bal: "balanced tr"
    and old: "\<forall>pre. prefix pre tr \<longrightarrow> in_flight pre \<le> maxConcurrent"
    and len: "length b \<le> maxConcurrent"
  shows "\<forall>pre. prefix pre (tr @ batch_events e v b) \<longrightarrow> in_flight pre \<le> maxConcurrent"
proof (intro allI impI)
  fix pre
  assume "prefix pre (tr @ batch_events e v b)"
  then consider "prefix pre tr" | us where "pre = tr @ us" "prefix us (batch_events e v b)"
    by (auto simp: prefix_append)
  then show "in_flight pre \<le> maxConcurrent"
  proof cases
    case 1
    with old show ?thesis by blast
  next
    case 2
    have "in_flight pre = in_flight us"
      using 2(1) bal by (simp add: in_flight_append_balanced)
    also have "\<dots> \<le> length (filter is_issue us)"
      by (rule in_flight_le_issues)
    also have "\<dots> \<le> length (filter is_issue (batch_events e v b))"
      using 2(2) by (rule count_prefix)
    also have "\<dots> \<le> maxConcurrent"
      using len issued_le [of v b] by (simp add: issue_count_batch)
    finally show ?thesis .
  qed
qed

lemma balanced_batch: "balanced tr \<Longrightarrow> balanced (tr @ batch_events e v b)"
  by (simp add: balanced_def issue_count_batch reply_count_batch)

lemma balanced_delay: "balanced tr \<Longrightarrow> balanced (tr @ [BatchDelay])"
  by (simp add: balanced_def)

lemma delay_in_flight:
  assumes "\<forall>pre. prefix pre tr \<longrightarrow> in_flight pre \<le> m"
  shows "\<forall>pre. prefix pre (tr @ [BatchDelay]) \<longrightarrow> in_flight pre \<le> m"
proof (intro allI impI)
  fix pre
  assume "prefix pre (tr @ [BatchDelay])"
  then have "prefix pre tr \<or> pre = tr @ [BatchDelay]"
    by (auto simp: prefix_snoc)
  moreover have "in_flight (tr @ [BatchDelay]) = in_flight tr"
    by (simp add: in_flight_def)
  moreover have "in_flight tr \<le> m"
    using assms by blast
  ultimately show "in_flight pre \<le> m"
    using assms by auto
qed

lemma crawl_loop_in_flight:
  assumes run: "crawl_loop e links i st = (fin, st')"
    and init: "balanced (trace st) \<and> flight_ok (trace st)"
  shows "flight_ok (trace st')"
proof (rule crawl_loop_rule [where I = "\<lambda>i st. balanced (trace st) \<and> flight_ok (trace st)"
        and Q = "\<lambda>fin st. flight_ok (trace st)", OF run init])
  fix i :: nat and st :: crawl_state
  assume inv: "balanced (trace st) \<and> flight_ok (trace st)"
  have mid: "balanced (trace st @ batch_events e (visited st) (the_batch links i)) \<and>
             flight_ok (trace st @ batch_events e (visited st) (the_batch links i))"
    using inv batch_in_flight [where tr = "trace st" and e = e
        and v = "visited st" and b = "the_batch links i"] the_batch_le [of links i]
    by (simp add: flight_ok_def balanced_batch)
  show "flight_ok (trace (after_replies e links i st))"
    using mid by (simp add: after_replies_fields)
  show "balanced (trace (after_batch e links i st)) \<and> flight_ok (trace (after_batch e links i st))"
  proof (cases "i + maxConcurrent < length links")
    case True
    then have tr: "trace (after_batch e links i st) =
        (trace st @ batch_events e (visited st) (the_batch links i)) @ [BatchDelay]"
      by (simp add: after_batch_fields)
    show ?thesis
      unfolding tr flight_ok_def
      using mid balanced_delay delay_in_flight unfolding flight_ok_def by blast
  next
    case False
    then show ?thesis using mid by (simp add: after_batch_fields)
  qed
  show "flight_ok (trace st)" using inv by simp
qed

subsection \<open>Visited URLs\<close>

lemma visited_after_append:
  "visited_after v (xs @ ys) = visited_after (visited_after v xs) ys"
  by (simp add: visited_after_def)

lemma visit_no_reply: "\<not> is_reply ev \<Longrightarrow> visit ev v = v"
  by (cases ev) auto

lemma visited_after_no_reply: "\<forall>ev\<in>set xs. \<not> is_reply ev \<Longrightarrow> visited_after v xs = v"
  by (induction xs arbitrary: v) (auto simp: visited_after_def visit_no_reply)

lemma visit_replied: "visit (Replied k u f) v = (if f = Crawled then str_set_add v u else v)"
  by (cases f) auto

lemma visited_after_replies:
  "visited_after v (map (\<lambda>x. Replied (fst x) (url (snd x)) (fate_of (link_result e x))) xs) =
     fold (\<lambda>x s. if fate_of (link_result e x) = Crawled then str_set_add s (url (snd x)) else s) xs v"
  by (induction xs arbitrary: v) (simp_all add: visited_after_def visit_replied)

lemma batch_events_split: "batch_events e v b = batch_head v b @ batch_replies e v b"
  by (simp add: batch_events_def batch_head_def batch_replies_def)

lemma batch_head_no_reply: "ev \<in> set (batch_head v b) \<Longrightarrow> \<not> is_reply ev"
  by (auto simp: batch_head_def)

lemma batch_head_issue: "FetchIssued k u \<in> set (batch_head v b) \<Longrightarrow> u \<notin> set v"
  by (auto simp: batch_head_def issued_def)

lemma batch_replies_reply: "ev \<in> set (batch_replies e v b) \<Longrightarrow> is_reply ev"
  by (auto simp: batch_replies_def)

lemma visited_after_batch: "visited_after v (batch_events e v b) = batch_visited e v b"
proof -
  have "visited_after v (batch_head v b) = v"
    by (rule visited_after_no_reply) (simp add: batch_head_no_reply)
  then show ?thesis
    by (simp add: batch_events_split visited_after_append batch_replies_def
          visited_after_replies batch_visited_def)
qed

lemma batch_issue_fresh:
  assumes pre: "prefix (us @ [FetchIssued k u]) (batch_events e v b)"
  shows "u \<notin> set v \<and> visited_after v us = v"
proof -
  let ?ev = "FetchIssued k u"
  have in_head: "prefix (us @ [?ev]) (batch_head v b)"
  proof -
    from pre consider "prefix (us @ [?ev]) (batch_head v b)"
      | ws where "us @ [?ev] = batch_head v b @ ws" "prefix ws (batch_replies e v b)"
      by (auto simp: batch_events_split prefix_append)
    then show ?thesis
    proof cases
      case 1
      then show ?thesis .
    next
      case 2
      show ?thesis
      proof (cases "ws = []")
        case True
        with 2(1) show ?thesis by simp
      next
        case False
        then have "last ws = ?ev"
          using 2(1) by (metis last_appendR last_snoc)
        then have "?ev \<in> set ws"
          using False last_in_set by metis
        then have "?ev \<in> set (batch_replies e v b)"
          using 2(2) set_mono_prefix by blast
        then have "is_reply ?ev"
          by (rule batch_replies_reply)
        then show ?thesis by simp
      qed
    qed
  qed
  then have sub: "set (us @ [?ev]) \<subseteq> set (batch_head v b)"
    by (rule set_mono_prefix)
  then have "?ev \<in> set (batch_head v b)"
    by simp
  then have fresh: "u \<notin> set v"
    by (rule batch_head_issue)
  have "\<forall>ev\<in>set us. \<not> is_reply ev"
    using sub batch_head_no_reply by auto
  then have "visited_after v us = v"
    by (rule visited_after_no_reply)
  with fresh show ?thesis by simp
qed

lemma fresh_issues_batch:
  assumes old: "fresh_issues v0 tr"
  shows "fresh_issues v0 (tr @ batch_events e (visited_after v0 tr) b)"
  unfolding fresh_issues_def
proof (intro allI impI)
  fix pre k u
  let ?ev = "FetchIssued k u"
  let ?v = "visited_after v0 tr"
  assume "prefix (pre @ [?ev]) (tr @ batch_events e ?v b)"
  then consider "prefix (pre @ [?ev]) tr"
    | us where "pre @ [?ev] = tr @ us" "prefix us (batch_events e ?v b)" "us \<noteq> []"
    by (cases "prefix (pre @ [?ev]) tr") (auto simp: prefix_append)
  then show "u \<notin> set (visited_after v0 pre)"
  proof cases
    case 1
    with old show ?thesis by (simp add: fresh_issues_def)
  next
    case 2
    from 2(1,3) obtain us' where us: "us = us' @ [?ev]" and p: "pre = tr @ us'"
      by (metis append_butlast_last_id append_assoc append1_eq_conv)
    from 2(2) us have "u \<notin> set ?v \<and> visited_after ?v us' = ?v"
      using batch_issue_fresh by blast
    then show ?thesis
      by (simp add: p visited_after_append)
  qed
qed

lemma fresh_issues_delay: "fresh_issues v0 tr \<Longrightarrow> fresh_issues v0 (tr @ [BatchDelay])"
  by (auto simp: fresh_issues_def prefix_snoc)

lemma visited_after_delay: "visited_after v0 (tr @ [BatchDelay]) = visited_after v0 tr"
  by (simp add: visited_after_def)

lemma crawl_loop_fresh:
  assumes run: "crawl_loop e links i st = (fin, st')"
    and init: "visited st = visited_after v0 (trace st) \<and> fresh_issues v0 (trace st)"
  shows "visited st' = visited_after v0 (trace st') \<and> fresh_issues v0 (trace st')"
proof (rule crawl_loop_rule [where I = "\<lambda>i st. visited st = visited_after v0 (trace st) \<and> fresh_issues v0 (trace st)"
        and Q = "\<lambda>fin st. visited st = visited_after v0 (trace st) \<and> fresh_issues v0 (trace st)", OF run init])
  fix i :: nat and st :: crawl_state
  assume inv: "visited st = visited_after v0 (trace st) \<and> fresh_issues v0 (trace st)"
  let ?tr = "trace st @ batch_events e (visited st) (the_batch links i)"
  have mid: "batch_visited e (visited st) (the_batch links i) = visited_after v0 ?tr \<and> fresh_issues v0 ?tr"
    using inv fresh_issues_batch [of v0 "trace st" e "the_batch links i"]
    by (simp add: visited_after_append visited_after_batch)
  show "visited (after_replies e links i st) = visited_after v0 (trace (after_replies e links i st))
        \<and> fresh_issues v0 (trace (after_replies e links i st))"
    using mid by (simp add: after_replies_fields)
  show "visited (after_batch e links i st) = visited_after v0 (trace (after_batch e links i st))
        \<and> fresh_issues v0 (trace (after_batch e links i st))"
  proof (cases "i + maxConcurrent < length links")
    case True
    then have tr: "trace (after_batch e links i st) = ?tr @ [BatchDelay]"
      by (simp add: after_batch_fields)
    show ?thesis
      using mid fresh_issues_delay [of v0 ?tr]
      by (simp only: tr visited_after_delay after_batch_fields(1)) 
  next
    case False
    then show ?thesis using mid by (simp add: after_batch_fields)
  qed
  show "visited st = visited_after v0 (trace st) \<and> fresh_issues v0 (trace st)"
    using inv .
qed

lemma batch_events_issues:
  "FetchIssued k u \<in> set (batch_events e v b) \<Longrightarrow> \<exists>l. (k, l) \<in> set b \<and> url l = u"
  by (auto simp: batch_events_def issued_def)

lemma the_batch_subset: "set (the_batch links i) \<subseteq> set links"
  unfolding the_batch_def by (meson set_take_subset set_drop_subset subset_trans)

lemma crawl_loop_issues:
  assumes run: "crawl_loop e links i st = (fin, st')"
    and init: "issues_from links (trace st)"
  shows "issues_from links (trace st')"
proof (rule crawl_loop_rule [where I = "\<lambda>i st. issues_from links (trace st)"
        and Q = "\<lambda>fin st. issues_from links (trace st)", OF run init])
  fix i :: nat and st :: crawl_state
  assume inv: "issues_from links (trace st)"
  have mid: "issues_from links (trace st @ batch_events e (visited st) (the_batch links i))"
    unfolding issues_from_def
  proof (intro allI impI)
    fix k u
    assume "FetchIssued k u \<in> set (trace st @ batch_events e (visited st) (the_batch links i))"
    then consider "FetchIssued k u \<in> set (trace st)"
      | "FetchIssued k u \<in> set (batch_events e (visited st) (the_batch links i))"
      by auto
    then show "\<exists>l. (k, l) \<in> set links \<and> url l = u"
    proof cases
      case 1
      with inv show ?thesis by (simp add: issues_from_def)
    next
      case 2
      then obtain l where "(k, l) \<in> set (the_batch links i)" "url l = u"
        using batch_events_issues by blast
      then show ?thesis using the_batch_subset by blast
    qed
  qed
  show "issues_from links (trace (after_replies e links i st))"
    using mid by (simp add: after_replies_fields)
  show "issues_from links (trace (after_batch e links i st))"
    using mid by (auto simp: after_batch_fields issues_from_def)
  show "issues_from links (trace st)" using inv .
qed

subsection \<open>What a crawl adds\<close>

lemma link_result_fails: "fetch_fails e k (url l) \<Longrightarrow> link_result e (k, l) = Returns None"
  by (auto simp: fetch_fails_def link_result_def crawlSinglePage_def split: option.splits)






lemma issued_subset: "set (issued v b) \<subseteq> set b"
  by (auto simp: issued_def)











subsection \<open>A crawl that returns\<close>

text \<open>
  The loop ends when no promise of a link stays pending. When every fetch fails, the crawl
  returns no content and leaves \<open>crawledUrls\<close> as it was; the reply of the background
  script of the repository is such a failure.
\<close>

lemma batchResults_Pending:
  "Pending \<in> set (batchResults e v b) \<Longrightarrow> \<exists>x\<in>set b. link_result e x = Pending"
proof -
  assume "Pending \<in> set (batchResults e v b)"
  then obtain x where x: "x \<in> set b"
    "Pending = (if url (snd x) \<in> set v then Returns None else link_result e x)"
    by (auto simp: batchResults_def)
  then have "link_result e x = Pending"
    by (cases "url (snd x) \<in> set v") simp_all
  with x(1) show ?thesis by blast
qed

lemma crawl_loop_returns:
  assumes run: "crawl_loop e links i st = (fin, st')"
    and settle: "\<forall>x\<in>set links. link_result e x \<noteq> Pending"
  shows "fin"
proof (rule crawl_loop_rule [where I = "\<lambda>i st. True" and Q = "\<lambda>fin st. fin", OF run])
  fix i :: nat and st :: crawl_state
  assume "Pending \<in> set (batchResults e (visited st) (the_batch links i))"
  then obtain x where "x \<in> set (the_batch links i)" "link_result e x = Pending"
    using batchResults_Pending by blast
  with settle the_batch_subset [of links i] show False
    by blast
qed simp_all

lemma enumerate_links:
  "(\<forall>x\<in>set (enumerate 0 links). P x) \<longleftrightarrow> (\<forall>k < length links. P (k, links ! k))"
  by (auto simp: in_set_enumerate_eq)

lemma crawl_returns:
  assumes "\<forall>k < length links. link_result e (k, links ! k) \<noteq> Pending"
  shows "\<exists>cc. fst (crawlSupportPages e links a) = Returns cc"
proof -
  obtain r a' tr where c: "crawlSupportPages e links a = (r, a', tr)"
    by (cases "crawlSupportPages e links a") auto
  from c obtain fin st' where
    run: "crawl_loop e (enumerate 0 links) 0 \<lparr>visited = crawledUrls a, crawledContent = [], trace = []\<rparr> = (fin, st')"
    and r: "r = (if fin then Returns (crawledContent st') else Pending)"
    by (rule crawlSupportPages_run)
  have "\<forall>x\<in>set (enumerate 0 links). link_result e x \<noteq> Pending"
    using assms by (simp add: enumerate_links)
  with run have fin by (rule crawl_loop_returns)
  with r c show ?thesis by simp
qed

lemma fold_unless: "\<forall>x\<in>set xs. \<not> P x \<Longrightarrow> fold (\<lambda>x s. if P x then f x s else s) xs v = v"
  by (induction xs arbitrary: v) auto

lemma batch_visited_fail:
  assumes "\<forall>x\<in>set b. link_result e x = Returns None"
  shows "batch_visited e v b = v"
proof -
  have "\<forall>x\<in>set (arrivals e v b). \<not> fate_of (link_result e x) = Crawled"
    using assms issued_subset [of v b] by (auto simp: arrivals_def fate_of_def)
  then show ?thesis
    unfolding batch_visited_def
    using fold_unless [of "arrivals e v b" "\<lambda>x. fate_of (link_result e x) = Crawled"
                          "\<lambda>x s. str_set_add s (url (snd x))" v]
    by simp
qed

lemma add_results_fail: "\<forall>r\<in>set rs. r = Returns None \<Longrightarrow> add_results rs cc = cc"
  unfolding add_results_def by (induction rs arbitrary: cc) auto

lemma batchResults_fail:
  "\<forall>x\<in>set b. link_result e x = Returns None \<Longrightarrow> \<forall>r\<in>set (batchResults e v b). r = Returns None"
  by (auto simp: batchResults_def)

lemma crawl_loop_all_fail:
  assumes run: "crawl_loop e links i st = (fin, st')"
    and fail: "\<forall>x\<in>set links. link_result e x = Returns None"
  shows "fin \<and> visited st' = visited st \<and> crawledContent st' = crawledContent st"
proof (rule crawl_loop_rule [where I = "\<lambda>i s. visited s = visited st \<and> crawledContent s = crawledContent st"
        and Q = "\<lambda>fin s. fin \<and> visited s = visited st \<and> crawledContent s = crawledContent st", OF run])
  fix i :: nat and s :: crawl_state
  assume inv: "visited s = visited st \<and> crawledContent s = crawledContent st"
  have b: "\<forall>x\<in>set (the_batch links i). link_result e x = Returns None"
    using fail the_batch_subset [of links i] by blast
  show "visited (after_batch e links i s) = visited st \<and>
        crawledContent (after_batch e links i s) = crawledContent st"
    using inv batch_visited_fail [OF b] add_results_fail [OF batchResults_fail [OF b]]
    by (simp add: after_batch_fields)
  show "True \<and> visited s = visited st \<and> crawledContent s = crawledContent st"
    using inv by simp
  {
    assume "Pending \<in> set (batchResults e (visited s) (the_batch links i))"
    then have False
      using batchResults_fail [OF b] by blast
    then show "False \<and> visited (after_replies e links i s) = visited st \<and>
               crawledContent (after_replies e links i s) = crawledContent st"
      by simp
  }
qed simp

lemma crawl_all_fail:
  assumes "\<forall>k < length links. fetch_fails e k (url (links ! k))"
  shows "\<exists>tr. crawlSupportPages e links a = (Returns [], a, tr)"
proof -
  obtain r a' tr where c: "crawlSupportPages e links a = (r, a', tr)"
    by (cases "crawlSupportPages e links a") auto
  from c obtain fin st' where
    run: "crawl_loop e (enumerate 0 links) 0 \<lparr>visited = crawledUrls a, crawledContent = [], trace = []\<rparr> = (fin, st')"
    and r: "r = (if fin then Returns (crawledContent st') else Pending)"
    and a': "a' = a\<lparr>crawledUrls := visited st'\<rparr>"
    by (rule crawlSupportPages_run)
  have "\<forall>x\<in>set (enumerate 0 links). link_result e x = Returns None"
    using assms link_result_fails by (simp add: enumerate_links)
  with run have "fin \<and> visited st' = crawledUrls a \<and> crawledContent st' = []"
    using crawl_loop_all_fail by fastforce
  with r a' c show ?thesis by simp
qed

lemma background_fetch_fails:
  "sendMessage e k u = handleMessage ''fetchPageContent'' \<Longrightarrow> fetch_fails e k u"
  by (simp add: fetch_fails_def handleMessage_def)

subsection \<open>The schedule of a crawl that ends\<close>

text \<open>
  When the loop ends, the batches and delays among its events are the planned schedule:
  consecutive batches of three positions, a delay between two batches.
\<close>

lemma positions_ok_enumerate: "positions_ok (enumerate 0 xs)"
  by (simp add: positions_ok_def)

lemma take_from_upt: "take m [i ..< n] = [i ..< min (i + m) n]"
proof (cases "i + m \<le> n")
  case True
  then show ?thesis by (simp add: min_def)
next
  case False
  then show ?thesis by (simp add: min_def)
qed

lemma batch_positions_eq:
  assumes "positions_ok links" "maxConcurrent dvd i"
  shows "map fst (the_batch links i) = batch_positions (length links) (i div maxConcurrent)"
proof -
  have "map fst (the_batch links i) = take maxConcurrent (drop i (map fst links))"
    by (simp add: the_batch_def take_map drop_map)
  also have "\<dots> = take maxConcurrent [i ..< length links]"
    using assms(1) by (simp add: positions_ok_def)
  also have "\<dots> = [i ..< min (i + maxConcurrent) (length links)]"
    by (rule take_from_upt)
  also have "\<dots> = batch_positions (length links) (i div maxConcurrent)"
    using assms(2) by (simp add: batch_positions_def)
  finally show ?thesis .
qed

lemma schedule_batch_events: "schedule (batch_events e v b) = [BatchStart (map fst b)]"
  by (simp add: schedule_def batch_events_def filter_map comp_def)

lemma schedule_append: "schedule (xs @ ys) = schedule xs @ schedule ys"
  by (simp add: schedule_def)

lemma between_snoc: "xs \<noteq> [] \<Longrightarrow> between d (xs @ [x]) = between d xs @ [d, x]"
  by (induction d xs rule: between.induct) auto

lemma between_upto:
  "between d (map g [0 ..< Suc j]) = concat (map (\<lambda>k. [g k, d]) [0 ..< j]) @ [g j]"
proof (induction j)
  case 0
  then show ?case by simp
next
  case (Suc j)
  have "between d (map g [0 ..< Suc (Suc j)]) = between d (map g [0 ..< Suc j] @ [g (Suc j)])"
    by simp
  also have "\<dots> = between d (map g [0 ..< Suc j]) @ [d, g (Suc j)]"
    by (rule between_snoc) simp
  also have "\<dots> = concat (map (\<lambda>k. [g k, d]) [0 ..< Suc j]) @ [g (Suc j)]"
    by (subst Suc.IH) simp
  finally show ?case .
qed

lemma last_batch_count:
  assumes "maxConcurrent dvd i" "i < n" "\<not> i + maxConcurrent < n"
  shows "batch_count n = Suc (i div maxConcurrent)"
  using assms unfolding batch_count_def maxConcurrent_def by (elim dvdE) auto

lemma planned_last:
  assumes "maxConcurrent dvd i" "i < n" "\<not> i + maxConcurrent < n"
  shows "planned n = head_schedule n i @ [BatchStart (batch_positions n (i div maxConcurrent))]"
  unfolding planned_def head_schedule_def last_batch_count [OF assms]
  by (rule between_upto)

lemma head_schedule_next:
  assumes "maxConcurrent dvd i"
  shows "head_schedule n (i + maxConcurrent) =
         head_schedule n i @ [BatchStart (batch_positions n (i div maxConcurrent)), BatchDelay]"
proof -
  have "(i + maxConcurrent) div maxConcurrent = Suc (i div maxConcurrent)"
    by (simp add: maxConcurrent_def)
  then show ?thesis by (simp add: head_schedule_def)
qed

lemma crawl_loop_schedule:
  assumes run: "crawl_loop e links i st = (fin, st')"
    and pos: "positions_ok links"
    and init: "on_schedule (length links) i st"
  shows "fin \<longrightarrow> schedule (trace st') = planned (length links)"
proof (rule crawl_loop_rule [where I = "\<lambda>i st. on_schedule (length links) i st"
        and Q = "\<lambda>fin st. fin \<longrightarrow> schedule (trace st) = planned (length links)", OF run init])
  fix i :: nat and st :: crawl_state
  assume inv: "on_schedule (length links) i st"
  show "False \<longrightarrow> schedule (trace (after_replies e links i st)) = planned (length links)"
    by simp
  {
    assume "\<not> i < length links"
    with inv show "True \<longrightarrow> schedule (trace st) = planned (length links)"
      by (simp add: on_schedule_def)
  }
  {
    assume less: "i < length links"
    from inv have dvd: "maxConcurrent dvd i" and sch: "schedule (trace st) = head_schedule (length links) i"
      using less by (simp_all add: on_schedule_def)
    have batch: "schedule (batch_events e (visited st) (the_batch links i)) =
                 [BatchStart (batch_positions (length links) (i div maxConcurrent))]"
      by (simp add: schedule_batch_events batch_positions_eq [OF pos dvd])
    show "on_schedule (length links) (i + maxConcurrent) (after_batch e links i st)"
    proof (cases "i + maxConcurrent < length links")
      case True
      then show ?thesis
        using dvd sch batch
        by (simp add: on_schedule_def after_batch_fields schedule_append head_schedule_next schedule_def)
    next
      case False
      then show ?thesis
        using dvd sch batch planned_last [OF dvd less False]
        by (simp add: on_schedule_def after_batch_fields schedule_append)
    qed
  }
qed

lemma crawl_schedule_when_finished:
  assumes "crawlSupportPages e links a = (Returns cc, a', tr)"
  shows "schedule tr = planned (length links)"
proof -
  from assms obtain fin st' where
    run: "crawl_loop e (enumerate 0 links) 0 \<lparr>visited = crawledUrls a, crawledContent = [], trace = []\<rparr> = (fin, st')"
    and r: "Returns cc = (if fin then Returns (crawledContent st') else Pending)"
    and tr: "tr = trace st'"
    by (rule crawlSupportPages_run)
  from r have fin: fin by (cases fin) simp_all
  have init: "on_schedule (length (enumerate 0 links)) 0 \<lparr>visited = crawledUrls a, crawledContent = [], trace = []\<rparr>"
    by (simp add: on_schedule_def schedule_def head_schedule_def planned_def batch_count_def maxConcurrent_def)
  from crawl_loop_schedule [OF run positions_ok_enumerate init] fin tr show ?thesis
    by simp
qed

lemma crawl_of_five_links_when_pages_extract:
  "schedule (snd (snd (crawlSupportPages fetching_site five_links new_analyzer))) =
     [BatchStart [0, 1, 2], BatchDelay, BatchStart [3, 4]]"
  by code_simp

text \<open>
  Whether the loop ends or not, the batches and delays among its events are an initial
  part of the planned schedule.
\<close>

lemma batch_count_gt:
  assumes "maxConcurrent dvd i" "i < n"
  shows "i div maxConcurrent < batch_count n"
  using assms unfolding batch_count_def maxConcurrent_def by (elim dvdE) auto

lemma planned_unfold:
  assumes "0 < n"
  shows "planned n = concat (map (\<lambda>j. [BatchStart (batch_positions n j), BatchDelay]) [0 ..< batch_count n - 1])
                     @ [BatchStart (batch_positions n (batch_count n - 1))]"
proof -
  have "0 < batch_count n"
    using assms by (simp add: batch_count_def maxConcurrent_def)
  then have "batch_count n = Suc (batch_count n - 1)" by simp
  then have "planned n = between BatchDelay (map (\<lambda>j. BatchStart (batch_positions n j)) [0 ..< Suc (batch_count n - 1)])"
    unfolding planned_def by simp
  then show ?thesis
    by (simp only: between_upto)
qed

lemma head_prefix_planned:
  assumes dvd: "maxConcurrent dvd i" and less: "i < n"
  shows "prefix (head_schedule n i @ [BatchStart (batch_positions n (i div maxConcurrent))]) (planned n)"
proof -
  let ?f = "\<lambda>j. [BatchStart (batch_positions n j), BatchDelay]"
  let ?j = "i div maxConcurrent"
  let ?m = "batch_count n - 1"
  from batch_count_gt [OF dvd less] have jm: "?j \<le> ?m" by simp
  have pl: "planned n = concat (map ?f [0 ..< ?m]) @ [BatchStart (batch_positions n ?m)]"
    using less by (intro planned_unfold) simp
  show ?thesis
  proof (cases "?j = ?m")
    case True
    then show ?thesis
      by (simp add: pl head_schedule_def)
  next
    case False
    with jm have lt: "?j < ?m" by simp
    then have "[0 ..< ?m] = [0 ..< ?j] @ ?j # [Suc ?j ..< ?m]"
      by (metis le0 upt_add_eq_append upt_conv_Cons le_add_diff_inverse less_imp_le_nat)
    then have "concat (map ?f [0 ..< ?m]) =
        concat (map ?f [0 ..< ?j]) @ [BatchStart (batch_positions n ?j), BatchDelay] @ concat (map ?f [Suc ?j ..< ?m])"
      by simp
    then show ?thesis
      by (simp add: pl head_schedule_def)
  qed
qed

lemma crawl_loop_schedule_prefix:
  assumes run: "crawl_loop e links i st = (fin, st')"
    and pos: "positions_ok links"
    and init: "on_schedule (length links) i st"
  shows "prefix (schedule (trace st')) (planned (length links))"
proof (rule crawl_loop_rule [where I = "\<lambda>i st. on_schedule (length links) i st"
        and Q = "\<lambda>fin st. prefix (schedule (trace st)) (planned (length links))", OF run init])
  fix i :: nat and st :: crawl_state
  assume inv: "on_schedule (length links) i st"
  {
    assume "\<not> i < length links"
    with inv show "prefix (schedule (trace st)) (planned (length links))"
      by (simp add: on_schedule_def)
  }
  {
    assume less: "i < length links"
    from inv have dvd: "maxConcurrent dvd i" and sch: "schedule (trace st) = head_schedule (length links) i"
      using less by (simp_all add: on_schedule_def)
    have batch: "schedule (batch_events e (visited st) (the_batch links i)) =
                 [BatchStart (batch_positions (length links) (i div maxConcurrent))]"
      by (simp add: schedule_batch_events batch_positions_eq [OF pos dvd])
    show "prefix (schedule (trace (after_replies e links i st))) (planned (length links))"
      using head_prefix_planned [OF dvd less] sch batch
      by (simp add: after_replies_fields schedule_append)
    show "on_schedule (length links) (i + maxConcurrent) (after_batch e links i st)"
    proof (cases "i + maxConcurrent < length links")
      case True
      then show ?thesis
        using dvd sch batch
        by (simp add: on_schedule_def after_batch_fields schedule_append head_schedule_next schedule_def)
    next
      case False
      then show ?thesis
        using dvd sch batch planned_last [OF dvd less False]
        by (simp add: on_schedule_def after_batch_fields schedule_append)
    qed
  }
qed

lemma crawl_schedule_prefix:
  assumes "crawlSupportPages e links a = (r, a', tr)"
  shows "prefix (schedule tr) (planned (length links))"
proof -
  from assms obtain fin st' where
    run: "crawl_loop e (enumerate 0 links) 0 \<lparr>visited = crawledUrls a, crawledContent = [], trace = []\<rparr> = (fin, st')"
    and tr: "tr = trace st'"
    by (rule crawlSupportPages_run)
  have init: "on_schedule (length (enumerate 0 links)) 0 \<lparr>visited = crawledUrls a, crawledContent = [], trace = []\<rparr>"
    by (simp add: on_schedule_def schedule_def head_schedule_def planned_def batch_count_def maxConcurrent_def)
  from crawl_loop_schedule_prefix [OF run positions_ok_enumerate init] tr show ?thesis
    by simp
qed

lemma crawl_of_five_links_stops_when_extraction_throws:
  "crawlSupportPages menu_site five_links new_analyzer =
     (Pending,
      new_analyzer\<lparr>crawledUrls := [''/b'', ''/c'']\<rparr>,
      [BatchStart [0, 1, 2], FetchIssued 0 ''/a'', FetchIssued 1 ''/b'', FetchIssued 2 ''/c'',
       Replied 0 ''/a'' Stuck, Replied 1 ''/b'' Crawled, Replied 2 ''/c'' Crawled])"
  by code_simp

subsection \<open>Fetching a URL again\<close>





subsection \<open>maxDepth\<close>

lemma categorizeLink_maxDepth: "categorizeLink (a\<lparr>maxDepth := d\<rparr>) u t = categorizeLink a u t"
  by (simp add: categorizeLink_def)

lemma nav_link_maxDepth: "nav_link e (a\<lparr>maxDepth := d\<rparr>) x = nav_link e a x"
  by (simp add: nav_link_def categorizeLink_maxDepth Let_def split: prod.splits option.splits sum.splits)

lemma nav_loop_maxDepth: "nav_loop e (a\<lparr>maxDepth := d\<rparr>) xs acc = nav_loop e a xs acc"
  by (induction xs arbitrary: acc) (simp_all add: nav_link_maxDepth split: sum.splits)

lemma findNavigationLinks_maxDepth: "findNavigationLinks e (a\<lparr>maxDepth := d\<rparr>) = findNavigationLinks e a"
  by (simp add: findNavigationLinks_def nav_loop_maxDepth)

lemma sitemap_link_maxDepth: "sitemap_link (a\<lparr>maxDepth := d\<rparr>) j = sitemap_link a j"
  by (rule ext) (simp add: sitemap_link_def categorizeLink_maxDepth Let_def split: prod.splits)

lemma sitemap_round_maxDepth: "sitemap_round e (a\<lparr>maxDepth := d\<rparr>) = sitemap_round e a"
  by (rule ext) (simp add: sitemap_round_def sitemap_link_maxDepth split: prod.splits sum.splits)

lemma checkSitemap_maxDepth: "checkSitemap e (a\<lparr>maxDepth := d\<rparr>) b = checkSitemap e a b"
  by (simp add: checkSitemap_def sitemap_round_maxDepth)

lemma discoverSupportLinks_maxDepth: "discoverSupportLinks e (a\<lparr>maxDepth := d\<rparr>) = discoverSupportLinks e a"
  by (simp add: discoverSupportLinks_def findNavigationLinks_maxDepth checkSitemap_maxDepth Let_def
        split: sum.splits)

lemma crawlSupportPages_maxDepth:
  "crawlSupportPages e links (a\<lparr>maxDepth := d\<rparr>) =
     (case crawlSupportPages e links a of (r, a', tr) \<Rightarrow> (r, a'\<lparr>maxDepth := d\<rparr>, tr))"
  by (simp add: crawlSupportPages_def split: prod.splits)

lemma performDeepAnalysis_maxDepth:
  "performDeepAnalysis e (a\<lparr>maxDepth := d\<rparr>) =
     (case performDeepAnalysis e a of (r, a') \<Rightarrow> (r, a'\<lparr>maxDepth := d\<rparr>))"
  by (simp add: performDeepAnalysis_def discoverSupportLinks_maxDepth crawlSupportPages_maxDepth Let_def
        split: sum.splits prod.splits outcome.splits)

subsection \<open>The entry point\<close>






lemma link_result_settles: "crawlSinglePage e k (url l) \<noteq> Pending \<Longrightarrow> link_result e (k, l) \<noteq> Pending"
  by (simp add: link_result_def split: outcome.splits)




section \<open>Claims\<close>

subsection \<open>C10: an href that starts with http is returned verbatim\<close>

text \<open>
  C10. \<open>resolveUrl\<close> treats every href whose string starts with the four characters
  \<open>http\<close> as absolute and returns it unchanged: whatever the environment, and so whatever
  the URL constructor would make of the string, it is neither resolved against the
  current page nor rejected.
\<close>

theorem resolveUrl_http_prefix_verbatim:
  "startsWith h ''http'' \<Longrightarrow> resolveUrl e h = Inr h"
  by (simp add: resolveUrl_def)

text \<open>
  At \<open>httpfoo/bar\<close> on the example site: the URL constructor would resolve the string to
  \<open>https://example.com/httpfoo/bar\<close>, and \<open>resolveUrl\<close> returns \<open>httpfoo/bar\<close>.
\<close>

theorem resolveUrl_http_prefix_verbatim_witness:
  "startsWith ''httpfoo/bar'' ''http'' \<and>
   newURL site ''httpfoo/bar'' (location_href site) = Inr ''https://example.com/httpfoo/bar'' \<and>
   resolveUrl site ''httpfoo/bar'' = Inr ''httpfoo/bar''"
proof -
  have p: "startsWith ''httpfoo/bar'' ''http''"
    by (simp add: startsWith_def)
  have n: "newURL site ''httpfoo/bar'' (location_href site) = Inr ''https://example.com/httpfoo/bar''"
    by (simp add: site_def)
  from p n resolveUrl_http_prefix_verbatim [OF p, of site] show ?thesis
    by simp
qed

subsection \<open>C7: the paragraphs of an HTML document\<close>




subsection \<open>C9: the analysis does not depend on maxDepth\<close>

text \<open>
  C9. \<open>maxDepth\<close> has no influence: for two analyzers that differ only in \<open>maxDepth\<close>,
  discovery returns the same links, the crawl has the same result and the same events,
  and \<open>performDeepAnalysis\<close> has the same outcome; the analyzers they leave behind again
  differ only in \<open>maxDepth\<close>.
\<close>

theorem maxDepth_never_consulted:
  "discoverSupportLinks e (a\<lparr>maxDepth := d\<rparr>) = discoverSupportLinks e a \<and>
   fst (crawlSupportPages e links (a\<lparr>maxDepth := d\<rparr>)) = fst (crawlSupportPages e links a) \<and>
   snd (snd (crawlSupportPages e links (a\<lparr>maxDepth := d\<rparr>))) = snd (snd (crawlSupportPages e links a)) \<and>
   fst (performDeepAnalysis e (a\<lparr>maxDepth := d\<rparr>)) = fst (performDeepAnalysis e a) \<and>
   snd (performDeepAnalysis e (a\<lparr>maxDepth := d\<rparr>)) = (snd (performDeepAnalysis e a))\<lparr>maxDepth := d\<rparr>"
  by (simp add: discoverSupportLinks_maxDepth crawlSupportPages_maxDepth performDeepAnalysis_maxDepth
        split: prod.splits)

text \<open>On the fetching example site, with depth 0 in place of the constructor's 3.\<close>

theorem maxDepth_never_consulted_witness:
  "fst (performDeepAnalysis fetching_site (new_analyzer\<lparr>maxDepth := 0\<rparr>)) =
     fst (performDeepAnalysis fetching_site new_analyzer) \<and>
   crawledUrls (snd (performDeepAnalysis fetching_site (new_analyzer\<lparr>maxDepth := 0\<rparr>))) =
     [''https://example.com/faq'', ''https://example.com/refund-policy'']"
proof -
  have ev: "crawledUrls (snd (performDeepAnalysis fetching_site new_analyzer)) =
     [''https://example.com/faq'', ''https://example.com/refund-policy'']"
    by code_simp
  from maxDepth_never_consulted [where e = fetching_site and a = new_analyzer and d = 0] ev show ?thesis
    by simp
qed

subsection \<open>C1: links with the same URL\<close>

text \<open>
  C1 says the merged output of discovery holds one link for each URL. The \<open>Set\<close> in
  \<open>discoverSupportLinks\<close> holds link objects, which JavaScript compares by identity, and
  every link object is a new one: when the navigation and the sitemap both give
  \<open>https://example.com/faq\<close>, discovery returns two links with that URL.
\<close>

theorem discovery_returns_same_url_twice:
  "discoverSupportLinks twice_site new_analyzer =
     Inr [\<lparr>url = ''https://example.com/faq'', linkText = Some ''faq'', linkType = Some ''faq'',
            source = None, location = Some ''body''\<rparr>,
          \<lparr>url = ''https://example.com/faq'', linkText = None, linkType = Some ''faq'',
            source = Some ''sitemap'', location = None\<rparr>]"
  by code_simp

subsection \<open>C3: the FAQ anchor and the refund policy in the sitemap\<close>

text \<open>
  C3 as the source has it. For the anchor \<open><a href="/faq">FAQ</a>\<close> on a page of any
  origin, \<open>categorizeLink\<close> returns \<open>faq\<close>, and the navigation scan pushes a link of
  category \<open>faq\<close>. For a \<open>sitemap.xml\<close> with a \<open>loc\<close> element (below \<open>url\<close> or \<open>sitemap\<close>)
  whose text is \<open>https://example.com/refund-policy\<close>, every list of links that discovery
  returns holds a link for that URL with source \<open>sitemap\<close> and category \<open>policy\<close>: the
  categories are tried in the order of \<open>contentTypes\<close>, where \<open>policy\<close> comes before
  \<open>refund\<close>.
\<close>

theorem faq_anchor_and_refund_policy_in_sitemap:
  "categorizeLink new_analyzer (location_origin e @ ''/faq'') (trim (toLowerCase ''FAQ'')) = ''faq'' \<and>
   nav_link e new_analyzer (k, anc, Elem ''a'' [(''href'', ''/faq'')] [Text ''FAQ'']) =
     Inr [(NavObj k,
           \<lparr>url = location_origin e @ ''/faq'', linkText = Some ''faq'', linkType = Some ''faq'',
            source = None,
            location = Some (getLinkLocation (absent e)
                               (anc, Elem ''a'' [(''href'', ''/faq'')] [Text ''FAQ'']))\<rparr>)] \<and>
   (httpFetch e (location_origin e @ ''/sitemap.xml'') = Inr (True, Inr body) \<and>
    loc \<in> set (querySelectorAll (parseXml e body) [Below ''url'' ''loc'', Below ''sitemap'' ''loc'']) \<and>
    textContent loc = ''https://example.com/refund-policy'' \<and>
    discoverSupportLinks e new_analyzer = Inr links
    \<longrightarrow> \<lparr>url = ''https://example.com/refund-policy'', linkText = None, linkType = Some ''policy'',
         source = Some ''sitemap'', location = None\<rparr> \<in> set links)"
proof -
  have t: "trim (toLowerCase ''FAQ'') = ''faq''"
    by code_simp
  have r: "resolveUrl e ''/faq'' = Inr (location_origin e @ ''/faq'')"
    by (simp add: resolveUrl_def startsWith_def)
  have c: "categorizeLink new_analyzer (location_origin e @ ''/faq'') ''faq'' = ''faq''"
    by (rule cat_faq)
  have n: "nav_link e new_analyzer (k, anc, Elem ''a'' [(''href'', ''/faq'')] [Text ''FAQ'']) =
     Inr [(NavObj k,
           \<lparr>url = location_origin e @ ''/faq'', linkText = Some ''faq'', linkType = Some ''faq'',
            source = None,
            location = Some (getLinkLocation (absent e)
                               (anc, Elem ''a'' [(''href'', ''/faq'')] [Text ''FAQ'']))\<rparr>)]"
    using t r c sup_faq [of "location_origin e"]
    by (simp add: nav_link_def getAttribute_def Let_def)
  have s: "httpFetch e (location_origin e @ ''/sitemap.xml'') = Inr (True, Inr body) \<and>
    loc \<in> set (querySelectorAll (parseXml e body) [Below ''url'' ''loc'', Below ''sitemap'' ''loc'']) \<and>
    textContent loc = ''https://example.com/refund-policy'' \<and>
    discoverSupportLinks e new_analyzer = Inr links
    \<longrightarrow> \<lparr>url = ''https://example.com/refund-policy'', linkText = None, linkType = Some ''policy'',
         source = Some ''sitemap'', location = None\<rparr> \<in> set links"
  proof (intro impI, elim conjE)
    let ?els = "querySelectorAll (parseXml e body) [Below ''url'' ''loc'', Below ''sitemap'' ''loc'']"
    let ?l = "\<lparr>url = ''https://example.com/refund-policy'', linkText = None, linkType = Some ''policy'',
         source = Some ''sitemap'', location = None\<rparr>"
    assume f: "httpFetch e (location_origin e @ ''/sitemap.xml'') = Inr (True, Inr body)"
      and l: "loc \<in> set ?els"
      and tc: "textContent loc = ''https://example.com/refund-policy''"
      and d: "discoverSupportLinks e new_analyzer = Inr links"
    from discover_keeps_nav_and_sitemap [OF d] obtain navLinks :: "link_obj list" and rest
      where split: "links = map snd navLinks @ map snd (checkSitemap e new_analyzer (location_origin e)) @ rest"
      by blast
    from l obtain j where j: "j < length ?els" "?els ! j = loc"
      by (auto simp: in_set_conv_nth)
    then have "(j, loc) \<in> set (enumerate 0 ?els)"
      by (simp add: in_set_enumerate_eq)
    moreover have "sitemap_link new_analyzer 0 (j, loc) = [(SitemapObj 0 j, ?l)]"
      by (simp add: sitemap_link_def tc sup_refund_policy cat_refund_policy)
    ultimately have "(SitemapObj 0 j, ?l) \<in> set (sitemap_round e new_analyzer (0, location_origin e @ ''/sitemap.xml''))"
      by (force simp: sitemap_round_def f)
    then have "(SitemapObj 0 j, ?l) \<in> set (checkSitemap e new_analyzer (location_origin e))"
      by (simp add: checkSitemap_def)
    then have "?l \<in> set (map snd (checkSitemap e new_analyzer (location_origin e)))"
      by force
    then show "?l \<in> set links"
      by (simp add: split)
  qed
  from c n s show ?thesis
    by (simp only: t)
qed

text \<open>
  On the example site, whose page has the FAQ anchor and whose sitemap lists the refund
  policy: the two links discovery returns.
\<close>

theorem faq_anchor_and_refund_policy_in_sitemap_witness:
  "discoverSupportLinks site new_analyzer =
     Inr [\<lparr>url = ''https://example.com/faq'', linkText = Some ''faq'', linkType = Some ''faq'',
            source = None, location = Some ''body''\<rparr>,
          \<lparr>url = ''https://example.com/refund-policy'', linkText = None, linkType = Some ''policy'',
            source = Some ''sitemap'', location = None\<rparr>] \<and>
   \<lparr>url = ''https://example.com/refund-policy'', linkText = None, linkType = Some ''policy'',
     source = Some ''sitemap'', location = None\<rparr>
     \<in> set [\<lparr>url = ''https://example.com/faq'', linkText = Some ''faq'', linkType = Some ''faq'',
               source = None, location = Some ''body''\<rparr>,
             \<lparr>url = ''https://example.com/refund-policy'', linkText = None, linkType = Some ''policy'',
               source = Some ''sitemap'', location = None\<rparr>]"
proof -
  let ?loc = "Elem ''loc'' [] [Text ''https://example.com/refund-policy'']"
  let ?links = "[\<lparr>url = ''https://example.com/faq'', linkText = Some ''faq'', linkType = Some ''faq'',
                   source = None, location = Some ''body''\<rparr>,
                 \<lparr>url = ''https://example.com/refund-policy'', linkText = None,
                   linkType = Some ''policy'', source = Some ''sitemap'', location = None\<rparr>]"
  have f: "httpFetch site (location_origin site @ ''/sitemap.xml'') = Inr (True, Inr ''<urlset>'')"
    by code_simp
  have l: "?loc \<in> set (querySelectorAll (parseXml site ''<urlset>'')
                          [Below ''url'' ''loc'', Below ''sitemap'' ''loc''])"
    by code_simp
  have tc: "textContent ?loc = ''https://example.com/refund-policy''"
    by simp
  have d: "discoverSupportLinks site new_analyzer = Inr ?links"
    by code_simp
  from faq_anchor_and_refund_policy_in_sitemap
         [where e = site and body = "''<urlset>''" and loc = ?loc and links = ?links] f l tc d
  have "\<lparr>url = ''https://example.com/refund-policy'', linkText = None, linkType = Some ''policy'',
          source = Some ''sitemap'', location = None\<rparr> \<in> set ?links"
    by blast
  with d show ?thesis by (rule conjI)
qed

text \<open>
  C3 as stated fails there: the link for the refund policy has category \<open>policy\<close>, and
  \<open>categorizeLink\<close> does not return \<open>refund\<close> for its URL.
\<close>

theorem refund_policy_is_not_refund_counterexample:
  "discoverSupportLinks site new_analyzer =
     Inr [\<lparr>url = ''https://example.com/faq'', linkText = Some ''faq'', linkType = Some ''faq'',
            source = None, location = Some ''body''\<rparr>,
          \<lparr>url = ''https://example.com/refund-policy'', linkText = None, linkType = Some ''policy'',
            source = Some ''sitemap'', location = None\<rparr>] \<and>
   categorizeLink new_analyzer ''https://example.com/refund-policy'' [] \<noteq> ''refund''"
  by code_simp

subsection \<open>C6: resolving an href\<close>

text \<open>
  C6 as the source has it. \<open>resolveUrl\<close> returns an href that starts with \<open>http\<close> unchanged,
  returns origin + href for any other href that starts with \<open>/\<close>, and returns what the URL
  constructor makes of any other href and the address of the current page, throwing when
  the constructor throws. The caller does not catch that error: when \<open>resolveUrl\<close> throws
  for an anchor of the page, \<open>findNavigationLinks\<close> throws, and so does discovery; no
  link is skipped and nothing is returned.
\<close>

theorem resolveUrl_cases_and_uncaught_failure:
  "(startsWith h ''http'' \<longrightarrow> resolveUrl e h = Inr h) \<and>
   (\<not> startsWith h ''http'' \<and> startsWith h ''/'' \<longrightarrow> resolveUrl e h = Inr (location_origin e @ h)) \<and>
   (\<not> startsWith h ''http'' \<and> \<not> startsWith h ''/'' \<longrightarrow> resolveUrl e h = newURL e h (location_href e)) \<and>
   ((anc, el) \<in> set (querySelectorAll' (document e) [TagWithAttr ''a'' ''href'']) \<and>
    getAttribute el ''href'' = Some h \<and> resolveUrl e h = Inl err
    \<longrightarrow> (\<exists>err'. findNavigationLinks e a = Inl err' \<and> discoverSupportLinks e a = Inl err'))"
proof -
  let ?xs = "querySelectorAll' (document e) [TagWithAttr ''a'' ''href'']"
  have "(anc, el) \<in> set ?xs \<and> getAttribute el ''href'' = Some h \<and> resolveUrl e h = Inl err
    \<longrightarrow> (\<exists>err'. findNavigationLinks e a = Inl err' \<and> discoverSupportLinks e a = Inl err')"
  proof (intro impI, elim conjE)
    assume m: "(anc, el) \<in> set ?xs" and g: "getAttribute el ''href'' = Some h"
      and r: "resolveUrl e h = Inl err"
    from m obtain k where "k < length ?xs" "?xs ! k = (anc, el)"
      by (auto simp: in_set_conv_nth)
    then have "(k, anc, el) \<in> set (enumerate 0 ?xs)"
      by (simp add: in_set_enumerate_eq)
    moreover have "nav_link e a (k, anc, el) = Inl err"
      using g r by (rule nav_link_throws)
    ultimately obtain err' where "findNavigationLinks e a = Inl err'"
      unfolding findNavigationLinks_def using nav_loop_throws by blast
    then show "\<exists>err'. findNavigationLinks e a = Inl err' \<and> discoverSupportLinks e a = Inl err'"
      by (simp add: discoverSupportLinks_def)
  qed
  then show ?thesis
    by (simp add: resolveUrl_def)
qed

text \<open>
  On the example site with the anchor \<open>ftp://[\<close>: the three kinds of href, and the scan
  that throws.
\<close>

theorem resolveUrl_cases_and_uncaught_failure_witness:
  "resolveUrl bad_href_site ''https://example.com/docs'' = Inr ''https://example.com/docs'' \<and>
   resolveUrl bad_href_site ''/faq'' = Inr (location_origin bad_href_site @ ''/faq'') \<and>
   resolveUrl bad_href_site ''help.html'' = newURL bad_href_site ''help.html'' (location_href bad_href_site) \<and>
   (\<exists>err'. findNavigationLinks bad_href_site new_analyzer = Inl err' \<and>
           discoverSupportLinks bad_href_site new_analyzer = Inl err')"
proof -
  let ?el = "Elem ''a'' [(''href'', ''ftp://['')] [Text ''help'']"
  have p1: "startsWith ''https://example.com/docs'' ''http''"
    by code_simp
  have p2: "\<not> startsWith ''/faq'' ''http'' \<and> startsWith ''/faq'' ''/''"
    by code_simp
  have p3: "\<not> startsWith ''help.html'' ''http'' \<and> \<not> startsWith ''help.html'' ''/''"
    by code_simp
  have p4: "([''body'', ''html''], ?el) \<in> set (querySelectorAll' (document bad_href_site) [TagWithAttr ''a'' ''href'']) \<and>
            getAttribute ?el ''href'' = Some ''ftp://['' \<and>
            resolveUrl bad_href_site ''ftp://['' = Inl (JsError ''Invalid URL'')"
    by code_simp
  from resolveUrl_cases_and_uncaught_failure [where e = bad_href_site and h = "''https://example.com/docs''"] p1
  have r1: "resolveUrl bad_href_site ''https://example.com/docs'' = Inr ''https://example.com/docs''"
    by blast
  from resolveUrl_cases_and_uncaught_failure [where e = bad_href_site and h = "''/faq''"] p2
  have r2: "resolveUrl bad_href_site ''/faq'' = Inr (location_origin bad_href_site @ ''/faq'')"
    by blast
  from resolveUrl_cases_and_uncaught_failure [where e = bad_href_site and h = "''help.html''"] p3
  have r3: "resolveUrl bad_href_site ''help.html'' = newURL bad_href_site ''help.html'' (location_href bad_href_site)"
    by blast
  from resolveUrl_cases_and_uncaught_failure [where e = bad_href_site and h = "''ftp://[''"
         and anc = "[''body'', ''html'']" and el = ?el and err = "JsError ''Invalid URL''"
         and a = new_analyzer] p4
  have r4: "\<exists>err'. findNavigationLinks bad_href_site new_analyzer = Inl err' \<and>
                  discoverSupportLinks bad_href_site new_analyzer = Inl err'"
    by blast
  from r1 r2 r3 r4 show ?thesis by blast
qed

text \<open>
  C6 as stated fails there: \<open>resolveUrl\<close> throws for the first anchor, and the scan of the
  page, which also has the FAQ anchor, throws with it instead of skipping the link.
\<close>

theorem malformed_href_ends_scan_counterexample:
  "resolveUrl bad_href_site ''ftp://['' = Inl (JsError ''Invalid URL'') \<and>
   findNavigationLinks bad_href_site new_analyzer = Inl (JsError ''Invalid URL'') \<and>
   discoverSupportLinks bad_href_site new_analyzer = Inl (JsError ''Invalid URL'')"
  by code_simp

subsection \<open>C8: the entry point\<close>




subsection \<open>C4: fetches in flight, and fetches of visited URLs\<close>

text \<open>
  C4. Let \<open>tr\<close> be the events of a crawl of \<open>links\<close>, whether the crawl ends or not. After
  every initial part of \<open>tr\<close> at most 3 fetches are in flight. Every fetch issued is for a
  link of the sequence, at its position, and its URL is not in \<open>crawledUrls\<close> at the time
  the fetch is issued: \<open>crawledUrls\<close> at that time is its value before the crawl with the
  URLs of the pages crawled so far, and \<open>crawledUrls\<close> after the crawl is the same for all
  the events. This holds however often a URL occurs in \<open>links\<close>.
\<close>

theorem crawl_three_in_flight_and_unvisited_fetches:
  "crawlSupportPages e links a = (r, a', tr) \<Longrightarrow>
     (\<forall>pre. prefix pre tr \<longrightarrow> in_flight pre \<le> 3) \<and>
     (\<forall>pre k u. prefix (pre @ [FetchIssued k u]) tr \<longrightarrow>
        k < length links \<and> url (links ! k) = u \<and> u \<notin> set (visited_after (crawledUrls a) pre)) \<and>
     crawledUrls a' = visited_after (crawledUrls a) tr"
proof -
  assume c: "crawlSupportPages e links a = (r, a', tr)"
  let ?st = "\<lparr>visited = crawledUrls a, crawledContent = [], trace = []\<rparr>"
  from c obtain fin st' where
    run: "crawl_loop e (enumerate 0 links) 0 ?st = (fin, st')"
    and a': "a' = a\<lparr>crawledUrls := visited st'\<rparr>"
    and tr: "tr = trace st'"
    by (rule crawlSupportPages_run)
  have "flight_ok (trace st')"
    by (rule crawl_loop_in_flight [OF run]) (simp add: balanced_def flight_ok_def in_flight_def)
  then have flight: "\<forall>pre. prefix pre tr \<longrightarrow> in_flight pre \<le> 3"
    by (simp add: flight_ok_def tr maxConcurrent_def)
  have "visited st' = visited_after (crawledUrls a) (trace st') \<and>
        fresh_issues (crawledUrls a) (trace st')"
    by (rule crawl_loop_fresh [OF run]) (simp add: visited_after_def fresh_issues_def)
  then have vis: "crawledUrls a' = visited_after (crawledUrls a) tr"
    and fresh: "\<forall>pre k u. prefix (pre @ [FetchIssued k u]) tr \<longrightarrow>
                  u \<notin> set (visited_after (crawledUrls a) pre)"
    by (simp_all add: a' tr fresh_issues_def)
  have "issues_from (enumerate 0 links) (trace st')"
    by (rule crawl_loop_issues [OF run]) (simp add: issues_from_def)
  then have from_links: "\<forall>pre k u. prefix (pre @ [FetchIssued k u]) tr \<longrightarrow>
                           k < length links \<and> url (links ! k) = u"
  proof (intro allI impI)
    fix pre k u
    assume i: "issues_from (enumerate 0 links) (trace st')"
      and p: "prefix (pre @ [FetchIssued k u]) tr"
    from p have "FetchIssued k u \<in> set tr"
      using set_mono_prefix by fastforce
    with i obtain l where "(k, l) \<in> set (enumerate 0 links)" "url l = u"
      unfolding issues_from_def tr by blast
    then show "k < length links \<and> url (links ! k) = u"
      by (auto simp: in_set_enumerate_eq)
  qed
  from flight fresh from_links vis show ?thesis
    by blast
qed

text \<open>
  On the fetching site, for four links of which the first, the second and the fourth have
  the URL \<open>/a\<close>: the events of the crawl, three fetches in flight after the first four
  events, and \<open>/a\<close> not visited when the fetch for the second link is issued (the page
  \<open>/a\<close> is fetched twice in the first batch, and not a third time in the second batch).
\<close>

theorem crawl_three_in_flight_and_unvisited_fetches_witness:
  "snd (snd (crawlSupportPages fetching_site repeated_links new_analyzer)) =
     [BatchStart [0, 1, 2], FetchIssued 0 ''/a'', FetchIssued 1 ''/a'', FetchIssued 2 ''/b'',
      Replied 0 ''/a'' Crawled, Replied 1 ''/a'' Crawled, Replied 2 ''/b'' Crawled,
      BatchDelay, BatchStart [3]] \<and>
   in_flight [BatchStart [0, 1, 2], FetchIssued 0 ''/a'', FetchIssued 1 ''/a'', FetchIssued 2 ''/b''] \<le> 3 \<and>
   ''/a'' \<notin> set (visited_after (crawledUrls new_analyzer)
                   [BatchStart [0, 1, 2], FetchIssued 0 ''/a'']) \<and>
   crawledUrls (fst (snd (crawlSupportPages fetching_site repeated_links new_analyzer))) =
     visited_after (crawledUrls new_analyzer)
       (snd (snd (crawlSupportPages fetching_site repeated_links new_analyzer)))"
proof -
  let ?c = "crawlSupportPages fetching_site repeated_links new_analyzer"
  let ?tr = "[BatchStart [0, 1, 2], FetchIssued 0 ''/a'', FetchIssued 1 ''/a'', FetchIssued 2 ''/b'',
      Replied 0 ''/a'' Crawled, Replied 1 ''/a'' Crawled, Replied 2 ''/b'' Crawled,
      BatchDelay, BatchStart [3]]"
  have tr: "snd (snd ?c) = ?tr"
    by code_simp
  have "?c = (fst ?c, fst (snd ?c), snd (snd ?c))"
    by simp
  then have c: "?c = (fst ?c, fst (snd ?c), ?tr)"
    by (simp only: tr)
  note t = crawl_three_in_flight_and_unvisited_fetches [OF c]
  have p1: "prefix [BatchStart [0, 1, 2], FetchIssued 0 ''/a'', FetchIssued 1 ''/a'', FetchIssued 2 ''/b''] ?tr"
    by simp
  have p2: "prefix ([BatchStart [0, 1, 2], FetchIssued 0 ''/a''] @ [FetchIssued 1 ''/a'']) ?tr"
    by simp
  from t p1 have f: "in_flight [BatchStart [0, 1, 2], FetchIssued 0 ''/a'', FetchIssued 1 ''/a'', FetchIssued 2 ''/b''] \<le> 3"
    by blast
  from t p2 have v: "''/a'' \<notin> set (visited_after (crawledUrls new_analyzer)
                   [BatchStart [0, 1, 2], FetchIssued 0 ''/a''])"
    by blast
  from t have "crawledUrls (fst (snd ?c)) = visited_after (crawledUrls new_analyzer) ?tr"
    by blast
  with tr f v show ?thesis
    by simp
qed

subsection \<open>C2: a link whose fetch fails\<close>




subsection \<open>C5: batches and delays\<close>

text \<open>
  C5. The planned schedule for \<open>n\<close> links is \<open>planned n\<close>: consecutive batches of three
  positions, the last one possibly smaller, and a delay after every batch but the last;
  for five links it is two batches with one delay between them. Whatever happens, the
  batches and delays of a crawl are an initial part of the planned schedule for its links,
  and they are the whole of it when the crawl returns. The crawl returns when no promise
  of a link stays pending; it does, with no content, when every fetch is answered by the
  background script of the repository.
\<close>

theorem crawl_in_batches_of_three_with_delays_between:
  "crawlSupportPages e links a = (r, a', tr) \<Longrightarrow>
     prefix (schedule tr) (planned (length links)) \<and>
     ((\<exists>cc. r = Returns cc) \<longrightarrow> schedule tr = planned (length links)) \<and>
     ((\<forall>k < length links. link_result e (k, links ! k) \<noteq> Pending) \<longrightarrow> (\<exists>cc. r = Returns cc)) \<and>
     ((\<forall>k < length links. sendMessage e k (url (links ! k)) = handleMessage ''fetchPageContent'')
        \<longrightarrow> r = Returns [] \<and> a' = a \<and> schedule tr = planned (length links)) \<and>
     (length links = 5 \<longrightarrow> planned (length links) = [BatchStart [0, 1, 2], BatchDelay, BatchStart [3, 4]])"
proof -
  assume c: "crawlSupportPages e links a = (r, a', tr)"
  have p: "prefix (schedule tr) (planned (length links))"
    using c by (rule crawl_schedule_prefix)
  have w: "(\<exists>cc. r = Returns cc) \<longrightarrow> schedule tr = planned (length links)"
    using c crawl_schedule_when_finished by blast
  have s: "(\<forall>k < length links. link_result e (k, links ! k) \<noteq> Pending) \<longrightarrow> (\<exists>cc. r = Returns cc)"
    using crawl_returns [of links e a] c by simp
  have b: "(\<forall>k < length links. sendMessage e k (url (links ! k)) = handleMessage ''fetchPageContent'')
        \<longrightarrow> r = Returns [] \<and> a' = a \<and> schedule tr = planned (length links)"
  proof
    assume "\<forall>k < length links. sendMessage e k (url (links ! k)) = handleMessage ''fetchPageContent''"
    then have "\<forall>k < length links. fetch_fails e k (url (links ! k))"
      using background_fetch_fails by blast
    then obtain tr' where "crawlSupportPages e links a = (Returns [], a, tr')"
      using crawl_all_fail by blast
    with c have "r = Returns [] \<and> a' = a"
      by simp
    with w show "r = Returns [] \<and> a' = a \<and> schedule tr = planned (length links)"
      by blast
  qed
  have "planned 5 = [BatchStart [0, 1, 2], BatchDelay, BatchStart [3, 4]]"
    by code_simp
  then have f: "length links = 5 \<longrightarrow> planned (length links) = [BatchStart [0, 1, 2], BatchDelay, BatchStart [3, 4]]"
    by simp
  from p w s b f show ?thesis
    by (intro conjI)
qed

text \<open>
  On the example site, whose fetches are answered by the background script of the
  repository, the crawl of five links returns after two batches with one delay between
  them, and so does the crawl on the fetching site, where every page is extracted.
\<close>

theorem crawl_in_batches_of_three_with_delays_between_witness:
  "fst (crawlSupportPages site five_links new_analyzer) = Returns [] \<and>
   schedule (snd (snd (crawlSupportPages site five_links new_analyzer))) =
     [BatchStart [0, 1, 2], BatchDelay, BatchStart [3, 4]] \<and>
   (\<exists>cc. fst (crawlSupportPages fetching_site five_links new_analyzer) = Returns cc) \<and>
   schedule (snd (snd (crawlSupportPages fetching_site five_links new_analyzer))) =
     [BatchStart [0, 1, 2], BatchDelay, BatchStart [3, 4]]"
proof -
  let ?c = "crawlSupportPages site five_links new_analyzer"
  let ?f = "crawlSupportPages fetching_site five_links new_analyzer"
  have n: "length five_links = 5"
    by (simp add: five_links_def)
  have c: "?c = (fst ?c, fst (snd ?c), snd (snd ?c))"
    by simp
  have h: "\<forall>k < length five_links. sendMessage site k (url (five_links ! k)) = handleMessage ''fetchPageContent''"
    by (simp add: site_def)
  from crawl_in_batches_of_three_with_delays_between [OF c] h n
  have r1: "fst ?c = Returns [] \<and>
            schedule (snd (snd ?c)) = [BatchStart [0, 1, 2], BatchDelay, BatchStart [3, 4]]"
    by simp
  have f: "?f = (fst ?f, fst (snd ?f), snd (snd ?f))"
    by simp
  have ex: "extractContentFromHtml fetching_site ''<p>Refunds are issued within thirty days.</p>'' =
     Inr \<lparr>title = [], headings = [], paragraphs = [''Refunds are issued within thirty days.''],
          lists = [], tables = ''[]'', forms = ''[]'',
          contactInfo = \<lparr>emails = [], phones = [], addresses = []\<rparr>, metadata = ''{}''\<rparr>"
    by code_simp
  have "\<forall>k u. crawlSinglePage fetching_site k u \<noteq> Pending"
    using ex by (simp add: crawlSinglePage_def fetching_site_def)
  then have np: "\<forall>k < length five_links. link_result fetching_site (k, five_links ! k) \<noteq> Pending"
    using link_result_settles by blast
  from crawl_in_batches_of_three_with_delays_between [OF f] np n
  have r2: "(\<exists>cc. fst ?f = Returns cc) \<and>
            schedule (snd (snd ?f)) = [BatchStart [0, 1, 2], BatchDelay, BatchStart [3, 4]]"
    by simp
  from r1 r2 show ?thesis
    by blast
qed

end
